theory Spec2Isabelle
  imports Main
begin

section \<open>The positional tokenizer\<close>

text \<open>
  A shallow embedding of the tokenizer of \<^verbatim>\<open>src/index.ts\<close> and of the second listing of the
  same module that the repository carries after its README (classes \<^verbatim>\<open>TokenizerBakedRule\<close>
  and \<^verbatim>\<open>Tokenizer\<close> with \<^verbatim>\<open>ruleMono\<close>/\<open>ruleMulti\<close>). A text is the list of its code
  units; the type of code units is a parameter \<open>'c\<close>, the examples use \<^typ>\<open>char\<close>.
\<close>

subsection \<open>Regular expressions, patterns, errors\<close>

text \<open>
  The tokenizer keeps the \<^verbatim>\<open>RegExp\<close> objects it is given and uses them only through
  \<^verbatim>\<open>regex.test(char)\<close> on a string of one code unit. There are two kinds of them.

  \<^item> \<open>Plain p\<close>: a \<^verbatim>\<open>RegExp\<close> with neither flag \<^verbatim>\<open>g\<close> nor flag \<^verbatim>\<open>y\<close>. Its \<^verbatim>\<open>test\<close> searches
    the string from index 0, neither reads nor writes \<^verbatim>\<open>lastIndex\<close>, and is the function
    \<open>p\<close> of the code unit.
  \<^item> \<open>Stateful a m\<close>: a \<^verbatim>\<open>RegExp\<close> with flag \<^verbatim>\<open>g\<close> or \<^verbatim>\<open>y\<close>. Its \<^verbatim>\<open>test\<close> starts at its
    \<^verbatim>\<open>lastIndex\<close> and writes it. \<open>a\<close> is the identity of the object (two rules may hold
    the same object), and \<open>m c i\<close> is the index at which the match ends when the regular
    expression, started at index \<open>i\<close> of the one-character string \<open>c\<close>, matches.

  A store gives the \<^verbatim>\<open>lastIndex\<close> of every stateful object by its identity.
\<close>

datatype 'c RegExp = Plain "'c \<Rightarrow> bool" | Stateful nat "'c \<Rightarrow> nat \<Rightarrow> nat option"

type_synonym store = "nat \<Rightarrow> nat"

text \<open>
  \<^verbatim>\<open>regex.test(char)\<close>, after \<^verbatim>\<open>RegExpBuiltinExec\<close> of ECMAScript on a string of length 1:
  with flag \<^verbatim>\<open>g\<close> or \<^verbatim>\<open>y\<close>, a \<^verbatim>\<open>lastIndex\<close> beyond the length fails and resets it to 0;
  otherwise a match sets \<^verbatim>\<open>lastIndex\<close> to its end and a failure resets it to 0. The result
  is the boolean and the store after the call.
\<close>

definition RegExp_test :: "'c RegExp \<Rightarrow> 'c \<Rightarrow> store \<Rightarrow> bool \<times> store" where
  "RegExp_test re c \<sigma> =
     (case re of
        Plain p \<Rightarrow> (p c, \<sigma>)
      | Stateful a m \<Rightarrow>
          (if 1 < \<sigma> a then (False, \<sigma>(a := 0))
           else (case m c (\<sigma> a) of
                   None \<Rightarrow> (False, \<sigma>(a := 0))
                 | Some e \<Rightarrow> (True, \<sigma>(a := e)))))"

text \<open>\<^verbatim>\<open>KnownRegexPatterns | RegExp\<close>: the string of an enum member, or a regular expression.\<close>

datatype 'c pattern = Known string | Custom "'c RegExp"

text \<open>
  \<^verbatim>\<open>new RegExp(pattern, flags)\<close> belongs to the JavaScript engine, not to the module: it is a
  parameter \<open>mk\<close> of the constructors below, \<open>None\<close> when the engine rejects the pattern with
  a \<^verbatim>\<open>SyntaxError\<close>. The module calls it with the flags \<^verbatim>\<open>u\<close> only, so the new object is a
  plain one, and the engine gives its test on one code unit.
\<close>

type_synonym 'c engine = "string \<Rightarrow> string \<Rightarrow> ('c \<Rightarrow> bool) option"

datatype error = SyntaxError | Error string

definition TokenizeLetter_ALL :: string where "TokenizeLetter_ALL = ''L''"
definition TokenizeSeparator_ALL :: string where "TokenizeSeparator_ALL = ''Z''"
definition TokenizeSymbol_ALL :: string where "TokenizeSymbol_ALL = ''S''"
definition TokenizeNumber_ALL :: string where "TokenizeNumber_ALL = ''N''"
definition TokenizePunctuation_ALL :: string where "TokenizePunctuation_ALL = ''P''"
definition TokenizeWord_SIMPLE :: string where "TokenizeWord_SIMPLE = ''L''"

text \<open>\<^verbatim>\<open>[\p{L}\p{Pd}']\<close>; \<open>CHR 0x5C\<close> is the backslash, \<open>CHR 0x27\<close> the apostrophe.\<close>

definition TokenizeWord_COMPLEX :: string where
  "TokenizeWord_COMPLEX =
     ''['' @ [CHR 0x5C] @ ''p{L}'' @ [CHR 0x5C] @ ''p{Pd}'' @ [CHR 0x27] @ '']''"

subsection \<open>Tokens and rules\<close>

text \<open>Class \<^verbatim>\<open>Token\<close>, fields \<^verbatim>\<open>i\<close>, \<^verbatim>\<open>t\<close>, \<^verbatim>\<open>v\<close>, \<^verbatim>\<open>p\<close>, named by their getters.\<close>

record 'c Token =
  index :: nat
  token_type :: string
  token_value :: "'c list"
  position :: "nat \<times> nat"

text \<open>
  Class \<^verbatim>\<open>Rule\<close>, fields \<^verbatim>\<open>r\<close>, \<^verbatim>\<open>t\<close>, \<^verbatim>\<open>g\<close>, named by their getters. The second listing calls
  the class \<^verbatim>\<open>TokenizerBakedRule\<close> and the flag \<^verbatim>\<open>m\<close>, with getter \<^verbatim>\<open>shouldCaptureMulti\<close>.
\<close>

record 'c Rule =
  regex :: "'c RegExp"
  rule_type :: string
  shouldCaptureGroup :: bool

type_synonym 'c TokenizerBakedRule = "'c Rule"

text \<open>Class \<^verbatim>\<open>Tokenizer\<close>: its one field \<^verbatim>\<open>r\<close>, read through the getter.\<close>

record 'c Tokenizer =
  rules :: "'c Rule list"

text \<open>
  The state a method call on a tokenizer works on: the object, with its field \<^verbatim>\<open>r\<close>, and
  the \<^verbatim>\<open>lastIndex\<close> of the regular expressions its rules refer to.
\<close>

record 'c world =
  tokenizer :: "'c Tokenizer"
  lastIndex :: store

subsection \<open>tokenize\<close>

text \<open>The argument of \<^verbatim>\<open>tokenize\<close> is any JavaScript value.\<close>

datatype 'c js_value =
  Undefined | Null | Boolean bool | Number int | Object
  | Str "'c list" | StringObject "'c list"

text \<open>\<^verbatim>\<open>typeof text === 'string' || text instanceof String\<close>\<close>

fun isString :: "'c js_value \<Rightarrow> bool" where
  "isString (Str s) = True"
| "isString (StringObject s) = True"
| "isString other = False"

fun chars :: "'c js_value \<Rightarrow> 'c list" where
  "chars (Str s) = s"
| "chars (StringObject s) = s"
| "chars other = []"

text \<open>
  The \<^verbatim>\<open>while (end < size)\<close> loop of a capturing rule, on the pair of the variables it
  updates and the store; \<^verbatim>\<open>size\<close> is \<^verbatim>\<open>text.length\<close>.
\<close>

function extend ::
  "'c RegExp \<Rightarrow> 'c list \<Rightarrow> 'c list \<times> nat \<Rightarrow> store \<Rightarrow> ('c list \<times> nat) \<times> store" where
  "extend re text (val, end) \<sigma> =
     (if end < length text then
        (let nextChar = text ! end; (matched, \<sigma>') = RegExp_test re nextChar \<sigma> in
         if matched then extend re text (val @ [nextChar], end + 1) \<sigma>'
         else ((val, end), \<sigma>'))
      else ((val, end), \<sigma>))"
  by pat_completeness auto
termination
  by (relation "measure (\<lambda>(re, text, (val, end), \<sigma>). length text - end)") auto

declare extend.simps [simp del]

text \<open>
  The inner \<^verbatim>\<open>for\<close> loop over the rules at one cursor position: the first rule whose regex
  tests true on the character pushes a token and breaks; every rule before it has been
  tested, and has moved its \<^verbatim>\<open>lastIndex\<close> if it is stateful. It returns the cursor and the
  tokens as the body leaves them, and the store.
\<close>

fun scan_rules ::
  "'c Rule list \<Rightarrow> 'c list \<Rightarrow> nat \<Rightarrow> 'c Token list \<Rightarrow> store
     \<Rightarrow> (nat \<times> 'c Token list) \<times> store" where
  "scan_rules [] text cursor tokens \<sigma> = ((cursor, tokens), \<sigma>)"
| "scan_rules (rule # rest) text cursor tokens \<sigma> =
     (let char = text ! cursor; (matched, \<sigma>1) = RegExp_test (regex rule) char \<sigma> in
      if matched then
        (let val = [char]; pos = (cursor, cursor + 1); type = rule_type rule in
         let ((val, pos, cursor), \<sigma>2) =
           (if shouldCaptureGroup rule then
              (let ((val, end), \<sigma>2) = extend (regex rule) text (val, cursor + 1) \<sigma>1
               in ((val, (cursor, end), end - 1), \<sigma>2))
            else ((val, pos, cursor), \<sigma>1))
         in ((cursor, tokens @ [\<lparr>index = length tokens, token_type = type,
                                  token_value = val, position = pos\<rparr>]), \<sigma>2))
      else scan_rules rest text cursor tokens \<sigma>1)"

text \<open>
  Whatever the tests return, the capturing loop takes characters of the text from where it
  starts and stays inside the text.
\<close>

lemma extend_general:
  "\<exists>n \<sigma>'. extend re text (val, e) \<sigma> = ((val @ take n (drop e text), e + n), \<sigma>') \<and>
           (e + n \<le> length text \<or> n = 0)"
proof (induction re "text" "(val, e)" \<sigma> arbitrary: val e rule: extend.induct)
  case (1 re s val e \<sigma>)
  show ?case
  proof (cases "e < length s")
    case False
    then have "extend re s (val, e) \<sigma> = ((val @ take 0 (drop e s), e + 0), \<sigma>)"
      by (subst extend.simps) simp
    then show ?thesis by blast
  next
    case lt: True
    obtain matched \<sigma>' where t: "RegExp_test re (s ! e) \<sigma> = (matched, \<sigma>')"
      by (cases "RegExp_test re (s ! e) \<sigma>")
    show ?thesis
    proof (cases matched)
      case False
      with lt t have "extend re s (val, e) \<sigma> = ((val @ take 0 (drop e s), e + 0), \<sigma>')"
        by (subst extend.simps) simp
      then show ?thesis by blast
    next
      case True
      from "1" [OF lt refl refl t [symmetric] True]
      obtain n \<sigma>'' where rec: "extend re s (val @ [s ! e], e + 1) \<sigma>'
            = (((val @ [s ! e]) @ take n (drop (e + 1) s), (e + 1) + n), \<sigma>'')"
        and le: "(e + 1) + n \<le> length s \<or> n = 0"
        by blast
      from lt have d: "drop e s = s ! e # drop (e + 1) s" by (simp add: Cons_nth_drop_Suc)
      from lt t True rec d
      have "extend re s (val, e) \<sigma> = ((val @ take (n + 1) (drop e s), e + (n + 1)), \<sigma>'')"
        by (subst extend.simps) simp
      moreover from le lt have "e + (n + 1) \<le> length s \<or> n + 1 = 0" by auto
      ultimately have "extend re s (val, e) \<sigma> = ((val @ take (n + 1) (drop e s), e + (n + 1)), \<sigma>'')
          \<and> (e + (n + 1) \<le> length s \<or> n + 1 = 0)"
        by (rule conjI)
      then show ?thesis by (intro exI)
    qed
  qed
qed

lemma extend_end_ge: "e \<le> snd (fst (extend re text (val, e) \<sigma>))"
proof -
  obtain n \<sigma>' where "extend re text (val, e) \<sigma> = ((val @ take n (drop e text), e + n), \<sigma>')"
    using extend_general [of re "text" val e \<sigma>] by blast
  then show ?thesis by simp
qed

lemma scan_rules_cursor_ge: "cursor \<le> fst (fst (scan_rules rs text cursor tokens \<sigma>))"
proof (induction rs arbitrary: \<sigma>)
  case Nil
  show ?case by simp
next
  case (Cons rule rest)
  obtain matched \<sigma>1 where t: "RegExp_test (regex rule) (text ! cursor) \<sigma> = (matched, \<sigma>1)"
    by (cases "RegExp_test (regex rule) (text ! cursor) \<sigma>")
  show ?case
  proof (cases matched)
    case False
    with t Cons [of \<sigma>1] show ?thesis by simp
  next
    case True
    have "cursor + 1 \<le> snd (fst (extend (regex rule) text ([text ! cursor], cursor + 1) \<sigma>1))"
      by (rule extend_end_ge)
    with t True show ?thesis by (auto simp: Let_def split: prod.splits)
  qed
qed

text \<open>
  The outer loop \<^verbatim>\<open>for (let cursor = 0; cursor < size; cursor++)\<close>, from any cursor, with
  the tokens pushed so far and the store.
\<close>

function loop ::
  "'c Rule list \<Rightarrow> 'c list \<Rightarrow> nat \<Rightarrow> 'c Token list \<Rightarrow> store \<Rightarrow> 'c Token list \<times> store" where
  "loop rs text cursor tokens \<sigma> =
     (if cursor < length text then
        (let ((cursor', tokens'), \<sigma>') = scan_rules rs text cursor tokens \<sigma>
         in loop rs text (cursor' + 1) tokens' \<sigma>')
      else (tokens, \<sigma>))"
  by pat_completeness auto
termination
proof (relation "measure (\<lambda>(rs, text, cursor, tokens, \<sigma>). length text - cursor)", goal_cases)
  case 1
  show ?case by simp
next
  case (2 rs s cursor tokens \<sigma> x ct \<sigma>' cursor' tokens')
  have "cursor \<le> fst (fst (scan_rules rs s cursor tokens \<sigma>))" by (rule scan_rules_cursor_ge)
  with 2 have "cursor \<le> cursor'" by (metis fst_conv)
  with 2(1) show ?case by simp
qed

declare loop.simps [simp del]

text \<open>\<^verbatim>\<open>tokenize(text)\<close>, reading the rules of the tokenizer: the tokens and the store.\<close>

definition tokenize :: "'c Tokenizer \<Rightarrow> 'c js_value \<Rightarrow> store \<Rightarrow> 'c Token list \<times> store" where
  "tokenize this text \<sigma> =
     (if \<not> isString text then ([], \<sigma>)
      else loop (rules this) (chars text) 0 [] \<sigma>)"


text \<open>
  A method call on a tokenizer, on the state of the world. \<^verbatim>\<open>tokenize\<close> has no assignment
  to \<^verbatim>\<open>this.r\<close>; every \<^verbatim>\<open>regex.test\<close> it makes may write a \<^verbatim>\<open>lastIndex\<close>.
\<close>

definition tokenize_call :: "'c world \<Rightarrow> 'c js_value \<Rightarrow> 'c Token list \<times> 'c world" where
  "tokenize_call w text =
     (let (tokens, \<sigma>') = tokenize (tokenizer w) text (lastIndex w)
      in (tokens, w\<lparr>lastIndex := \<sigma>'\<rparr>))"

subsection \<open>Building rules and tokenizers: \<^verbatim>\<open>src/index.ts\<close>\<close>

text \<open>\<^verbatim>\<open>Rule.toRegex\<close>; \<open>''u''\<close> is the flags argument.\<close>

definition toRegex :: "'c engine \<Rightarrow> string \<Rightarrow> error + 'c RegExp" where
  "toRegex mk patternStr =
     (let pattern = (if patternStr = TokenizeWord_COMPLEX then TokenizeWord_COMPLEX
                     else [CHR 0x5C] @ ''p{'' @ patternStr @ ''}'')
      in case mk pattern ''u'' of None \<Rightarrow> Inl SyntaxError | Some p \<Rightarrow> Inr (Plain p))"

text \<open>
  The constructor of \<^verbatim>\<open>Rule\<close>, \<open>rx\<close> its argument \<^verbatim>\<open>regex\<close>; \<open>captureAsAGroup\<close> is optional, and
  \<^verbatim>\<open>captureAsAGroup || false\<close> reads a missing one as \<open>False\<close>.
\<close>

definition Rule_new :: "'c engine \<Rightarrow> string \<Rightarrow> 'c pattern \<Rightarrow> bool option \<Rightarrow> error + 'c Rule" where
  "Rule_new mk type rx captureAsAGroup =
     (case (case rx of Custom re \<Rightarrow> Inr re | Known patternStr \<Rightarrow> toRegex mk patternStr) of
        Inl e \<Rightarrow> Inl e
      | Inr re \<Rightarrow> Inr \<lparr>regex = re, rule_type = type,
                       shouldCaptureGroup = (case captureAsAGroup of None \<Rightarrow> False | Some b \<Rightarrow> b)\<rparr>)"

text \<open>
  \<^verbatim>\<open>captureMono\<close> and \<^verbatim>\<open>captureGroup\<close> take an instruction object and read its first key
  and the value under it. Every instruction in the module is an object literal of one
  entry, \<^verbatim>\<open>{ word: TokenizeLetter.ALL }\<close>; it is modelled by that entry.
\<close>

definition captureMono :: "'c engine \<Rightarrow> string \<times> 'c pattern \<Rightarrow> error + 'c Rule" where
  "captureMono mk instruction = (let type = fst instruction in Rule_new mk type (snd instruction) None)"

definition captureGroup :: "'c engine \<Rightarrow> string \<times> 'c pattern \<Rightarrow> error + 'c Rule" where
  "captureGroup mk instruction =
     (let type = fst instruction in Rule_new mk type (snd instruction) (Some True))"

text \<open>An array literal evaluates its elements in order; the first one that throws ends it.\<close>

fun array_of :: "(error + 'a) list \<Rightarrow> error + 'a list" where
  "array_of [] = Inr []"
| "array_of (Inl e # xs) = Inl e"
| "array_of (Inr x # xs) = (case array_of xs of Inl e \<Rightarrow> Inl e | Inr ys \<Rightarrow> Inr (x # ys))"

text \<open>
  The constructor of \<^verbatim>\<open>Tokenizer\<close> in \<^verbatim>\<open>src/index.ts\<close>: \<^verbatim>\<open>rules ? rules : [...]\<close>. \<open>None\<close> is
  the omitted argument; an array, also the empty one, is truthy.
\<close>

definition Tokenizer_new :: "'c engine \<Rightarrow> 'c Rule list option \<Rightarrow> error + 'c Tokenizer" where
  "Tokenizer_new mk rs =
     (case rs of
        Some given \<Rightarrow> Inr \<lparr>rules = given\<rparr>
      | None \<Rightarrow>
          (case array_of
             [captureGroup mk (''word'', Known TokenizeLetter_ALL),
              captureGroup mk (''number'', Known TokenizeNumber_ALL),
              captureMono mk (''space'', Known TokenizeSeparator_ALL),
              captureMono mk (''punctuation'', Known TokenizePunctuation_ALL),
              captureGroup mk (''symbol'', Known TokenizeSymbol_ALL)] of
             Inl e \<Rightarrow> Inl e
           | Inr defaults \<Rightarrow> Inr \<lparr>rules = defaults\<rparr>))"

text \<open>\<^verbatim>\<open>update(rules)\<close> of \<^verbatim>\<open>src/index.ts\<close>; it returns \<^verbatim>\<open>this\<close>.\<close>

definition update :: "'c Tokenizer \<Rightarrow> 'c Rule list \<Rightarrow> 'c Tokenizer" where
  "update this rs = this\<lparr>rules := rs\<rparr>"

subsection \<open>Building rules and tokenizers: the second listing\<close>

text \<open>
  A \<^verbatim>\<open>TokenizerRule\<close> is a record from types to patterns: the list of its entries in the
  order of \<^verbatim>\<open>Object.keys\<close>. A value is \<open>None\<close> when it is \<^verbatim>\<open>undefined\<close> or \<^verbatim>\<open>null\<close>.
\<close>

type_synonym 'c TokenizerRule = "(string \<times> 'c pattern option) list"

text \<open>\<^verbatim>\<open>!regex\<close>: \<^verbatim>\<open>undefined\<close>, \<^verbatim>\<open>null\<close> and the empty string are falsy, a \<^verbatim>\<open>RegExp\<close> is not.\<close>

fun falsy :: "'c pattern option \<Rightarrow> bool" where
  "falsy None = True"
| "falsy (Some (Known patternStr)) = (patternStr = [])"
| "falsy (Some (Custom re)) = False"

text \<open>\<^verbatim>\<open>TokenizerBakedRule.toRegex\<close>\<close>

definition baked_toRegex :: "'c engine \<Rightarrow> 'c pattern \<Rightarrow> error + 'c RegExp" where
  "baked_toRegex mk rx =
     (case rx of
        Custom re \<Rightarrow> Inr re
      | Known known \<Rightarrow>
          (let pattern = (if known = TokenizeWord_COMPLEX then TokenizeWord_COMPLEX
                          else [CHR 0x5C] @ ''p{'' @ known @ ''}'')
           in case mk pattern ''u'' of None \<Rightarrow> Inl SyntaxError | Some p \<Rightarrow> Inr (Plain p)))"

text \<open>
  The constructor of \<^verbatim>\<open>TokenizerBakedRule\<close>, with its two \<^verbatim>\<open>throw\<close> statements.
  \<^verbatim>\<open>rule[ruleType]\<close> under the first key is the value of the first entry.
\<close>

definition TokenizerBakedRule_new ::
  "'c engine \<Rightarrow> 'c TokenizerRule \<Rightarrow> bool option \<Rightarrow> error + 'c TokenizerBakedRule" where
  "TokenizerBakedRule_new mk rule captureMulti =
     (case rule of
        [] \<Rightarrow> Inl (Error ''Omitting the rule that has no type'')
      | (ruleType, rx) # others \<Rightarrow>
          if falsy rx then Inl (Error ''Omitting the rule that has no value'')
          else (case baked_toRegex mk (the rx) of
                  Inl e \<Rightarrow> Inl e
                | Inr re \<Rightarrow> Inr \<lparr>regex = re, rule_type = ruleType,
                                 shouldCaptureGroup =
                                   (case captureMulti of None \<Rightarrow> False | Some b \<Rightarrow> b)\<rparr>))"

text \<open>\<^verbatim>\<open>ruleMono\<close> and \<^verbatim>\<open>ruleMulti\<close> catch every exception and return \<^verbatim>\<open>null\<close>, here \<open>None\<close>.\<close>

definition ruleMono :: "'c engine \<Rightarrow> 'c TokenizerRule \<Rightarrow> 'c TokenizerBakedRule option" where
  "ruleMono mk rule =
     (case TokenizerBakedRule_new mk rule None of Inl e \<Rightarrow> None | Inr baked \<Rightarrow> Some baked)"

definition ruleMulti :: "'c engine \<Rightarrow> 'c TokenizerRule \<Rightarrow> 'c TokenizerBakedRule option" where
  "ruleMulti mk rule =
     (case TokenizerBakedRule_new mk rule (Some True) of Inl e \<Rightarrow> None | Inr baked \<Rightarrow> Some baked)"

definition getDefaultRules :: "'c engine \<Rightarrow> 'c TokenizerBakedRule option list" where
  "getDefaultRules mk =
     [ruleMulti mk [(''word'', Some (Known TokenizeLetter_ALL))],
      ruleMono mk [(''space'', Some (Known TokenizeSeparator_ALL))],
      ruleMono mk [(''punctuation'', Some (Known TokenizePunctuation_ALL))],
      ruleMulti mk [(''number'', Some (Known TokenizeNumber_ALL))],
      ruleMulti mk [(''symbol'', Some (Known TokenizeSymbol_ALL))]]"

text \<open>\<^verbatim>\<open>rules.filter(r => Boolean(r)) as TokenizerBakedRule[]\<close>\<close>

definition filter_baked :: "'c TokenizerBakedRule option list \<Rightarrow> 'c TokenizerBakedRule list" where
  "filter_baked rs = map the (filter (\<lambda>r. r \<noteq> None) rs)"

text \<open>
  The constructor of \<^verbatim>\<open>Tokenizer\<close> in the second listing:
  \<^verbatim>\<open>rules || Tokenizer.getDefaultRules()\<close>, then the filter.
\<close>

definition Tokenizer_new_baked ::
  "'c engine \<Rightarrow> 'c TokenizerBakedRule option list option \<Rightarrow> 'c Tokenizer" where
  "Tokenizer_new_baked mk rs =
     (let rulesToApply = (case rs of Some given \<Rightarrow> given | None \<Rightarrow> getDefaultRules mk)
      in \<lparr>rules = filter_baked rulesToApply\<rparr>)"

definition update_baked :: "'c Tokenizer \<Rightarrow> 'c TokenizerBakedRule option list \<Rightarrow> 'c Tokenizer" where
  "update_baked this rs = this\<lparr>rules := filter_baked rs\<rparr>"


subsection \<open>Vocabulary of the statements\<close>

text \<open>
  \<open>plain\<close> tells the regular expressions without flag \<^verbatim>\<open>g\<close> or \<^verbatim>\<open>y\<close>. \<open>accepts re c\<close>
  says that \<open>re\<close> matches the one-character string \<open>c\<close> searched from index 0, which is
  what \<^verbatim>\<open>test\<close> returns for a plain one, and for a stateful one whose \<^verbatim>\<open>lastIndex\<close> is 0.
  \<open>first_match\<close> is the first rule of the list that accepts a character, and \<open>capture\<close>
  the characters such a rule would take at a cursor: the longest run it accepts from the cursor
  for a capturing rule, the one character otherwise.

  Two descriptions of a whole output read a token list from a cursor \<open>c\<close> and a next index
  \<open>k\<close>. \<open>spans\<close> says that the tokens are numbered from \<open>k\<close>, lie one after the other
  from \<open>c\<close> on inside the text, are not empty and carry the characters of their span.
  \<open>chain\<close> says, more, that every token is what the first matching rule captures at its
  start, and that no rule accepts a character between two tokens, before the first or after
  the last.
\<close>

fun plain :: "'c RegExp \<Rightarrow> bool" where
  "plain (Plain p) = True"
| "plain (Stateful a m) = False"

fun accepts :: "'c RegExp \<Rightarrow> 'c \<Rightarrow> bool" where
  "accepts (Plain p) c = p c"
| "accepts (Stateful a m) c = (m c 0 \<noteq> None)"

abbreviation all_plain :: "'c Rule list \<Rightarrow> bool" where
  "all_plain rs \<equiv> list_all (\<lambda>rule. plain (regex rule)) rs"

abbreviation first_match :: "'c Rule list \<Rightarrow> 'c \<Rightarrow> 'c Rule option" where
  "first_match rs c \<equiv> find (\<lambda>rule. accepts (regex rule) c) rs"

definition capture :: "'c Rule \<Rightarrow> 'c list \<Rightarrow> nat \<Rightarrow> 'c list" where
  "capture rule text cursor =
     (if shouldCaptureGroup rule then takeWhile (accepts (regex rule)) (drop cursor text)
      else [text ! cursor])"

fun spans :: "'c list \<Rightarrow> nat \<Rightarrow> nat \<Rightarrow> 'c Token list \<Rightarrow> bool" where
  "spans text c k [] = True"
| "spans text c k (tok # new) =
     (c \<le> fst (position tok) \<and> fst (position tok) < snd (position tok) \<and>
      snd (position tok) \<le> length text \<and> index tok = k \<and>
      token_value tok
        = take (snd (position tok) - fst (position tok)) (drop (fst (position tok)) text) \<and>
      spans text (snd (position tok)) (k + 1) new)"

definition emitted :: "'c Rule list \<Rightarrow> 'c list \<Rightarrow> 'c Token \<Rightarrow> bool" where
  "emitted rs text tok =
     (fst (position tok) < length text \<and>
      (case first_match rs (text ! fst (position tok)) of
         None \<Rightarrow> False
       | Some rule \<Rightarrow>
           token_type tok = rule_type rule \<and>
           token_value tok = capture rule text (fst (position tok)) \<and>
           snd (position tok) = fst (position tok) + length (token_value tok)))"

fun chain :: "'c Rule list \<Rightarrow> 'c list \<Rightarrow> nat \<Rightarrow> nat \<Rightarrow> 'c Token list \<Rightarrow> bool" where
  "chain rs text c k [] = (\<forall>j. c \<le> j \<and> j < length text \<longrightarrow> first_match rs (text ! j) = None)"
| "chain rs text c k (tok # new) =
     (c \<le> fst (position tok) \<and>
      (\<forall>j. c \<le> j \<and> j < fst (position tok) \<longrightarrow> first_match rs (text ! j) = None) \<and>
      index tok = k \<and> emitted rs text tok \<and>
      chain rs text (snd (position tok)) (k + 1) new)"

subsection \<open>An engine and rules for the examples\<close>

text \<open>
  A fragment of a regular expression engine for the examples: it compiles the five patterns
  of the default rules and the pattern of \<^verbatim>\<open>TokenizeWord.COMPLEX\<close> under the flag \<^verbatim>\<open>u\<close>, with
  the Unicode general categories of the ASCII characters, and rejects every other request.
  The examples use it on ASCII text only.
\<close>

definition ascii_L :: "char list" where
  "ascii_L = ''abcdefghijklmnopqrstuvwxyzABCDEFGHIJKLMNOPQRSTUVWXYZ''"

definition ascii_N :: "char list" where
  "ascii_N = ''0123456789''"

definition ascii_Z :: "char list" where
  "ascii_Z = '' ''"

definition ascii_P :: "char list" where
  "ascii_P = ''!#%&()*,-./:;?@[]_{}'' @ [CHR 0x22, CHR 0x27, CHR 0x5C]"

definition ascii_S :: "char list" where
  "ascii_S = ''$+<=>^|~'' @ [CHR 0x60]"

definition ascii_engine :: "char engine" where
  "ascii_engine pattern flags =
     (if flags \<noteq> ''u'' then None
      else if pattern = [CHR 0x5C] @ ''p{L}'' then Some (\<lambda>c. c \<in> set ascii_L)
      else if pattern = [CHR 0x5C] @ ''p{Z}'' then Some (\<lambda>c. c \<in> set ascii_Z)
      else if pattern = [CHR 0x5C] @ ''p{P}'' then Some (\<lambda>c. c \<in> set ascii_P)
      else if pattern = [CHR 0x5C] @ ''p{N}'' then Some (\<lambda>c. c \<in> set ascii_N)
      else if pattern = [CHR 0x5C] @ ''p{S}'' then Some (\<lambda>c. c \<in> set ascii_S)
      else if pattern = TokenizeWord_COMPLEX
        then Some (\<lambda>c. c \<in> set ascii_L \<or> c = CHR ''-'' \<or> c = CHR 0x27)
      else None)"

text \<open>
  Rules for the examples. The first three hold plain regular expressions: \<^verbatim>\<open>/\./\<close>,
  \<^verbatim>\<open>/[ab]/\<close> and \<^verbatim>\<open>/a/\<close>. \<open>a_global\<close> is \<^verbatim>\<open>/a/g\<close>, an object of identity 0: searched from
  index 0 the string \<^verbatim>\<open>a\<close> matches up to index 1, and from index 1 nothing is left to match.
  \<open>fresh\<close> is the store in which every \<^verbatim>\<open>lastIndex\<close> is 0, as for new objects.
\<close>

definition period :: "char Rule" where
  "period = \<lparr>regex = Plain (\<lambda>c. c = CHR ''.''), rule_type = ''period'',
             shouldCaptureGroup = False\<rparr>"

definition ab_run :: "char Rule" where
  "ab_run = \<lparr>regex = Plain (\<lambda>c. c = CHR ''a'' \<or> c = CHR ''b''), rule_type = ''ab'',
             shouldCaptureGroup = True\<rparr>"

definition a_one :: "char Rule" where
  "a_one = \<lparr>regex = Plain (\<lambda>c. c = CHR ''a''), rule_type = ''a'', shouldCaptureGroup = False\<rparr>"

definition a_global :: "char RegExp" where
  "a_global = Stateful 0 (\<lambda>c i. if i = 0 \<and> c = CHR ''a'' then Some 1 else None)"

definition a_global_one :: "char Rule" where
  "a_global_one = \<lparr>regex = a_global, rule_type = ''x'', shouldCaptureGroup = False\<rparr>"


definition a_plain_one :: "char Rule" where
  "a_plain_one = \<lparr>regex = Plain (\<lambda>c. c = CHR ''a''), rule_type = ''y'',
                  shouldCaptureGroup = False\<rparr>"

definition fresh :: store where
  "fresh = (\<lambda>a. 0)"


subsection \<open>The scanning loop, whatever the tests return\<close>

lemma scan_rules_general:
  assumes "cursor < length text"
  shows "(\<exists>\<sigma>'. scan_rules rs text cursor tokens \<sigma> = ((cursor, tokens), \<sigma>')) \<or>
         (\<exists>n rule \<sigma>'. 0 < n \<and> cursor + n \<le> length text \<and> rule \<in> set rs \<and>
            scan_rules rs text cursor tokens \<sigma> =
              ((cursor + n - 1,
                tokens @ [\<lparr>index = length tokens, token_type = rule_type rule,
                           token_value = take n (drop cursor text),
                           position = (cursor, cursor + n)\<rparr>]), \<sigma>'))"
proof (induction rs arbitrary: \<sigma>)
  case Nil
  show ?case by simp
next
  case (Cons rule rest)
  obtain matched \<sigma>1 where t: "RegExp_test (regex rule) (text ! cursor) \<sigma> = (matched, \<sigma>1)"
    by (cases "RegExp_test (regex rule) (text ! cursor) \<sigma>")
  from assms have d: "drop cursor text = text ! cursor # drop (cursor + 1) text"
    by (simp add: Cons_nth_drop_Suc)
  show ?case
  proof (cases matched)
    case False
    with t have eq: "scan_rules (rule # rest) text cursor tokens \<sigma>
        = scan_rules rest text cursor tokens \<sigma>1" by simp
    from Cons [of \<sigma>1] show ?thesis unfolding eq by auto
  next
    case True
    show ?thesis
    proof (cases "shouldCaptureGroup rule")
      case False
      with t True d assms have "0 < (1 :: nat) \<and> cursor + 1 \<le> length text \<and>
          rule \<in> set (rule # rest) \<and>
          scan_rules (rule # rest) text cursor tokens \<sigma> =
              ((cursor + 1 - 1,
                tokens @ [\<lparr>index = length tokens, token_type = rule_type rule,
                           token_value = take 1 (drop cursor text),
                           position = (cursor, cursor + 1)\<rparr>]), \<sigma>1)"
        by simp
      then show ?thesis by - (rule disjI2, (rule exI)+, assumption)
    next
      case multi: True
      obtain n \<sigma>2 where ex: "extend (regex rule) text ([text ! cursor], cursor + 1) \<sigma>1
            = (([text ! cursor] @ take n (drop (cursor + 1) text), (cursor + 1) + n), \<sigma>2)"
        and le: "(cursor + 1) + n \<le> length text \<or> n = 0"
        using extend_general [of "regex rule" "text" "[text ! cursor]" "cursor + 1" \<sigma>1]
        by blast
      from t True multi ex d have "scan_rules (rule # rest) text cursor tokens \<sigma> =
              ((cursor + (n + 1) - 1,
                tokens @ [\<lparr>index = length tokens, token_type = rule_type rule,
                           token_value = take (n + 1) (drop cursor text),
                           position = (cursor, cursor + (n + 1))\<rparr>]), \<sigma>2)"
        by simp
      moreover from le assms have "cursor + (n + 1) \<le> length text" by auto
      ultimately have "0 < n + 1 \<and> cursor + (n + 1) \<le> length text \<and>
          rule \<in> set (rule # rest) \<and>
          scan_rules (rule # rest) text cursor tokens \<sigma> =
              ((cursor + (n + 1) - 1,
                tokens @ [\<lparr>index = length tokens, token_type = rule_type rule,
                           token_value = take (n + 1) (drop cursor text),
                           position = (cursor, cursor + (n + 1))\<rparr>]), \<sigma>2)"
        by simp
      then show ?thesis by - (rule disjI2, (rule exI)+, assumption)
    qed
  qed
qed

lemma spans_from_earlier: "spans text c' k new \<Longrightarrow> c \<le> c' \<Longrightarrow> spans text c k new"
  by (cases new) auto

lemma loop_spans:
  "\<exists>new. fst (loop rs text cursor tokens \<sigma>) = tokens @ new \<and>
         spans text cursor (length tokens) new"
proof (induction rs "text" cursor tokens \<sigma> rule: loop.induct)
  case (1 rs s cursor tokens \<sigma>)
  show ?case
  proof (cases "cursor < length s")
    case False
    then have "fst (loop rs s cursor tokens \<sigma>) = tokens @ []" by (subst loop.simps) simp
    moreover have "spans s cursor (length tokens) []" by simp
    ultimately show ?thesis by blast
  next
    case lt: True
    obtain cursor' tokens' \<sigma>' where sc: "scan_rules rs s cursor tokens \<sigma> = ((cursor', tokens'), \<sigma>')"
      by (metis surj_pair)
    from lt sc have unfold: "loop rs s cursor tokens \<sigma> = loop rs s (cursor' + 1) tokens' \<sigma>'"
      by (subst loop.simps) simp
    from "1" [OF lt sc [symmetric] refl refl]
    obtain new where res: "fst (loop rs s (cursor' + 1) tokens' \<sigma>') = tokens' @ new"
      and sp: "spans s (cursor' + 1) (length tokens') new"
      by blast
    from scan_rules_general [OF lt, of rs tokens \<sigma>] show ?thesis
    proof (elim disjE exE conjE)
      fix \<sigma>''
      assume "scan_rules rs s cursor tokens \<sigma> = ((cursor, tokens), \<sigma>'')"
      with sc have "cursor' = cursor" "tokens' = tokens" by simp_all
      with res sp unfold have "fst (loop rs s cursor tokens \<sigma>) = tokens @ new"
        and "spans s cursor (length tokens) new"
        by (simp_all add: spans_from_earlier)
      then show ?thesis by blast
    next
      fix n rule \<sigma>''
      let ?tok = "\<lparr>index = length tokens, token_type = rule_type rule,
                   token_value = take n (drop cursor s), position = (cursor, cursor + n)\<rparr>"
      assume n: "0 < n" "cursor + n \<le> length s"
        and "scan_rules rs s cursor tokens \<sigma> = ((cursor + n - 1, tokens @ [?tok]), \<sigma>'')"
      with sc have c: "cursor' = cursor + n - 1" and t: "tokens' = tokens @ [?tok]" by simp_all
      from c n have c': "cursor' + 1 = cursor + n" by simp
      from res unfold t have r: "fst (loop rs s cursor tokens \<sigma>) = tokens @ (?tok # new)"
        by simp
      from sp c' t n have "spans s cursor (length tokens) (?tok # new)" by simp
      with r show ?thesis by blast
    qed
  qed
qed

lemma spans_index_nth:
  "spans text c k new \<Longrightarrow> i < length new \<Longrightarrow> index (new ! i) = k + i"
proof (induction new arbitrary: c k i)
  case Nil
  then show ?case by simp
next
  case (Cons tok new)
  from Cons.prems have tl: "spans text (snd (position tok)) (k + 1) new"
    and ik: "index tok = k" by simp_all
  show ?case
  proof (cases i)
    case 0
    with ik show ?thesis by simp
  next
    case (Suc i')
    with Cons.prems(2) have "i' < length new" by simp
    from Cons.IH [OF tl this] Suc show ?thesis by simp
  qed
qed

lemma spans_indices: "spans text c 0 new \<Longrightarrow> map index new = [0..<length new]"
  by (rule nth_equalityI) (simp_all add: spans_index_nth)

lemma spans_member:
  "spans text c k new \<Longrightarrow> tok \<in> set new \<Longrightarrow>
     fst (position tok) < snd (position tok) \<and> snd (position tok) \<le> length text \<and>
     token_value tok
       = take (snd (position tok) - fst (position tok)) (drop (fst (position tok)) text)"
  by (induction new arbitrary: c k) auto

lemma spans_adjacent:
  assumes "spans text c k new" "i + 1 < length new"
  shows "snd (position (new ! i)) \<le> fst (position (new ! (i + 1)))"
  using assms
proof (induction new arbitrary: c k i)
  case Nil
  then show ?case by simp
next
  case (Cons tok new)
  from Cons.prems(1) have tl: "spans text (snd (position tok)) (k + 1) new" by simp
  show ?case
  proof (cases i)
    case 0
    with Cons.prems(2) obtain tok' rest where new: "new = tok' # rest" by (cases new) auto
    with tl 0 show ?thesis by simp
  next
    case (Suc i')
    with Cons.prems(2) have "i' + 1 < length new" by simp
    from Cons.IH [OF tl this] Suc show ?thesis by simp
  qed
qed

lemma tokenize_spans:
  assumes "isString v"
  shows "spans (chars v) 0 0 (fst (tokenize this v \<sigma>))"
proof -
  obtain new where "fst (loop (rules this) (chars v) 0 [] \<sigma>) = [] @ new"
    and "spans (chars v) 0 (length ([] :: 'a Token list)) new"
    using loop_spans [of "rules this" "chars v" 0 "[]" \<sigma>] by blast
  with assms show ?thesis by (simp add: tokenize_def)
qed


subsection \<open>The scanning loop over plain regular expressions\<close>

lemma RegExp_test_plain: "plain re \<Longrightarrow> RegExp_test re c \<sigma> = (accepts re c, \<sigma>)"
  by (cases re) (simp_all add: RegExp_test_def)

lemma all_plain_member: "all_plain rs \<Longrightarrow> rule \<in> set rs \<Longrightarrow> plain (regex rule)"
  by (simp add: list_all_iff)

lemma extend_plain:
  assumes "plain re"
  shows "extend re text (val, e) \<sigma> =
     ((val @ takeWhile (accepts re) (drop e text),
       e + length (takeWhile (accepts re) (drop e text))), \<sigma>)"
  using assms
proof (induction re "text" "(val, e)" \<sigma> arbitrary: val e rule: extend.induct)
  case (1 re' s val e \<sigma>)
  note t = RegExp_test_plain [OF 1(2), of "s ! e" \<sigma>]
  show ?case
  proof (cases "e < length s")
    case lt: True
    then have d: "drop e s = s ! e # drop (e + 1) s" by (simp add: Cons_nth_drop_Suc)
    show ?thesis
    proof (cases "accepts re' (s ! e)")
      case True
      from "1"(1) [OF lt refl refl t [symmetric] True 1(2)]
      have "extend re' s (val @ [s ! e], e + 1) \<sigma> =
         (((val @ [s ! e]) @ takeWhile (accepts re') (drop (e + 1) s),
           (e + 1) + length (takeWhile (accepts re') (drop (e + 1) s))), \<sigma>)" .
      with lt True d t show ?thesis by (subst extend.simps) simp
    next
      case False
      with lt d t show ?thesis by (subst extend.simps) simp
    qed
  next
    case False
    then show ?thesis by (subst extend.simps) simp
  qed
qed

lemma scan_rules_no_match:
  "all_plain rs \<Longrightarrow> first_match rs (text ! cursor) = None \<Longrightarrow>
     scan_rules rs text cursor tokens \<sigma> = ((cursor, tokens), \<sigma>)"
  by (induction rs) (auto simp: RegExp_test_plain split: if_splits)

lemma capture_length_pos:
  assumes "cursor < length text" "accepts (regex rule) (text ! cursor)"
  shows "capture rule text cursor \<noteq> []"
  using assms by (auto simp: capture_def Cons_nth_drop_Suc [symmetric])

lemma scan_rules_match:
  assumes "all_plain rs" "first_match rs (text ! cursor) = Some rule" "cursor < length text"
  shows "scan_rules rs text cursor tokens \<sigma> =
     ((cursor + length (capture rule text cursor) - 1,
       tokens @ [\<lparr>index = length tokens, token_type = rule_type rule,
                  token_value = capture rule text cursor,
                  position = (cursor, cursor + length (capture rule text cursor))\<rparr>]), \<sigma>)"
  using assms(1,2)
proof (induction rs)
  case Nil
  then show ?case by simp
next
  case (Cons r rest)
  from Cons.prems(1) have pr: "plain (regex r)" and rest: "all_plain rest" by simp_all
  note t = RegExp_test_plain [OF pr, of "text ! cursor" \<sigma>]
  show ?case
  proof (cases "accepts (regex r) (text ! cursor)")
    case True
    with Cons.prems have eq: "r = rule" by simp
    from assms(3) have d: "drop cursor text = text ! cursor # drop (cursor + 1) text"
      by (simp add: Cons_nth_drop_Suc)
    from True eq d t pr show ?thesis
      by (simp add: capture_def extend_plain Let_def)
  next
    case False
    with Cons rest t show ?thesis by simp
  qed
qed

lemma loop_done:
  "\<not> cursor < length text \<Longrightarrow> loop rs text cursor tokens \<sigma> = (tokens, \<sigma>)"
  by (subst loop.simps) simp

lemma loop_no_match:
  assumes "all_plain rs" "cursor < length text" "first_match rs (text ! cursor) = None"
  shows "loop rs text cursor tokens \<sigma> = loop rs text (cursor + 1) tokens \<sigma>"
  using assms by (subst loop.simps) (simp add: scan_rules_no_match)

lemma loop_match:
  assumes "all_plain rs" "cursor < length text" "first_match rs (text ! cursor) = Some rule"
  shows "loop rs text cursor tokens \<sigma> =
     loop rs text (cursor + length (capture rule text cursor))
       (tokens @ [\<lparr>index = length tokens, token_type = rule_type rule,
                   token_value = capture rule text cursor,
                   position = (cursor, cursor + length (capture rule text cursor))\<rparr>]) \<sigma>"
proof -
  from assms(3) have "accepts (regex rule) (text ! cursor)"
    by (auto dest: find_Some_iff [THEN iffD1])
  with assms(2) have "0 < length (capture rule text cursor)"
    using capture_length_pos [of cursor "text" rule] by simp
  with assms show ?thesis
    by (subst loop.simps) (simp add: scan_rules_match)
qed

text \<open>
  Induction over the run of the loop with plain rules: the store stays \<open>\<sigma>\<close>, and a
  property of the cursor, the tokens pushed so far and the result is shown for the end of
  the text, for a character that no rule accepts, and for a token pushed.
\<close>

lemma loop_result_induct [consumes 1, case_names finished skip emit]:
  assumes pl: "all_plain rs"
    and fin: "\<And>cursor tokens. \<not> cursor < length s \<Longrightarrow> P cursor tokens tokens"
    and skip: "\<And>cursor tokens res. cursor < length s \<Longrightarrow>
        first_match rs (s ! cursor) = None \<Longrightarrow> P (cursor + 1) tokens res \<Longrightarrow>
        P cursor tokens res"
    and emit: "\<And>cursor tokens res rule. cursor < length s \<Longrightarrow>
        first_match rs (s ! cursor) = Some rule \<Longrightarrow>
        accepts (regex rule) (s ! cursor) \<Longrightarrow>
        P (cursor + length (capture rule s cursor))
          (tokens @ [\<lparr>index = length tokens, token_type = rule_type rule,
                      token_value = capture rule s cursor,
                      position = (cursor, cursor + length (capture rule s cursor))\<rparr>]) res \<Longrightarrow>
        P cursor tokens res"
  shows "snd (loop rs s cursor tokens \<sigma>) = \<sigma> \<and> P cursor tokens (fst (loop rs s cursor tokens \<sigma>))"
proof (induction n \<equiv> "length s - cursor" arbitrary: cursor tokens rule: less_induct)
  case less
  show ?case
  proof (cases "cursor < length s")
    case False
    then show ?thesis by (simp add: loop_done fin)
  next
    case lt: True
    show ?thesis
    proof (cases "first_match rs (s ! cursor)")
      case None
      have "snd (loop rs s (cursor + 1) tokens \<sigma>) = \<sigma> \<and>
          P (cursor + 1) tokens (fst (loop rs s (cursor + 1) tokens \<sigma>))"
      proof (rule less)
        from lt show "length s - (cursor + 1) < length s - cursor" by arith
      qed
      then have "snd (loop rs s (cursor + 1) tokens \<sigma>) = \<sigma> \<and>
          P cursor tokens (fst (loop rs s (cursor + 1) tokens \<sigma>))"
        using skip [OF lt None] by blast
      then show ?thesis by (simp only: loop_no_match [OF pl lt None])
    next
      case (Some rule)
      then have m: "accepts (regex rule) (s ! cursor)"
        by (auto dest: find_Some_iff [THEN iffD1])
      with lt have pos: "0 < length (capture rule s cursor)"
        using capture_length_pos [of cursor s rule] by simp
      let ?tok = "\<lparr>index = length tokens, token_type = rule_type rule,
                      token_value = capture rule s cursor,
                      position = (cursor, cursor + length (capture rule s cursor))\<rparr>"
      let ?next = "loop rs s (cursor + length (capture rule s cursor)) (tokens @ [?tok]) \<sigma>"
      have "snd ?next = \<sigma> \<and>
          P (cursor + length (capture rule s cursor)) (tokens @ [?tok]) (fst ?next)"
      proof (rule less)
        from lt pos show "length s - (cursor + length (capture rule s cursor))
            < length s - cursor" by arith
      qed
      then have "snd ?next = \<sigma> \<and> P cursor tokens (fst ?next)"
        using emit [OF lt Some m] by blast
      then show ?thesis by (simp only: loop_match [OF pl lt Some])
    qed
  qed
qed

lemma loop_plain_store: "all_plain rs \<Longrightarrow> snd (loop rs text cursor tokens \<sigma>) = \<sigma>"
proof -
  assume pl: "all_plain rs"
  have "snd (loop rs text cursor tokens \<sigma>) = \<sigma> \<and>
      (\<lambda>(c :: nat) (t :: 'a Token list) (r :: 'a Token list). True) cursor tokens
        (fst (loop rs text cursor tokens \<sigma>))"
    by (rule loop_result_induct [OF pl]) simp_all
  then show ?thesis by simp
qed


lemma chain_skip:
  assumes "first_match rs (text ! c) = None" "chain rs text (c + 1) k new"
  shows "chain rs text c k new"
proof -
  have gap: "first_match rs (text ! j) = None"
    if "c \<le> j" and later: "c + 1 \<le> j \<Longrightarrow> first_match rs (text ! j) = None" for j
  proof (cases "j = c")
    case True
    with assms(1) show ?thesis by simp
  next
    case False
    with that(1) have "c + 1 \<le> j" by simp
    then show ?thesis by (rule later)
  qed
  show ?thesis
  proof (cases new)
    case Nil
    with assms(2) show ?thesis by (auto intro: gap)
  next
    case (Cons tok rest)
    with assms(2) show ?thesis by (auto intro: gap)
  qed
qed

lemma loop_chain:
  assumes "all_plain rs"
  shows "\<exists>new. fst (loop rs text cursor tokens \<sigma>) = tokens @ new \<and>
               chain rs text cursor (length tokens) new"
proof -
  let ?P = "\<lambda>cursor tokens res.
     \<exists>new. res = tokens @ new \<and> chain rs text cursor (length tokens) new"
  have "snd (loop rs text cursor tokens \<sigma>) = \<sigma> \<and>
      ?P cursor tokens (fst (loop rs text cursor tokens \<sigma>))"
  proof (rule loop_result_induct [where P = ?P and rs = rs and s = "text", OF assms], goal_cases)
    case (1 cursor tokens)
    then have "chain rs text cursor (length tokens) []" by auto
    then show ?case by blast
  next
    case (2 cursor tokens res)
    then obtain new where "res = tokens @ new" "chain rs text (cursor + 1) (length tokens) new"
      by blast
    with 2(2) have "res = tokens @ new \<and> chain rs text cursor (length tokens) new"
      by (simp add: chain_skip)
    then show ?case by blast
  next
    case (3 cursor tokens res rule)
    let ?tok = "\<lparr>index = length tokens, token_type = rule_type rule,
                 token_value = capture rule text cursor,
                 position = (cursor, cursor + length (capture rule text cursor))\<rparr>"
    from 3(4) obtain new where res: "res = (tokens @ [?tok]) @ new"
      and ch: "chain rs text (cursor + length (capture rule text cursor)) (length tokens + 1) new"
      by auto
    from 3(1,2) have "emitted rs text ?tok" by (simp add: emitted_def)
    with ch have "chain rs text cursor (length tokens) (?tok # new)" by auto
    with res have "res = tokens @ (?tok # new) \<and> chain rs text cursor (length tokens) (?tok # new)"
      by simp
    then show ?case by blast
  qed
  then show ?thesis by simp
qed

lemma chain_index_nth:
  "chain rs text c k new \<Longrightarrow> i < length new \<Longrightarrow> index (new ! i) = k + i"
proof (induction new arbitrary: c k i)
  case Nil
  then show ?case by simp
next
  case (Cons tok new)
  from Cons.prems have tl: "chain rs text (snd (position tok)) (k + 1) new"
    and ik: "index tok = k" by simp_all
  show ?case
  proof (cases i)
    case 0
    with ik show ?thesis by simp
  next
    case (Suc i')
    with Cons.prems(2) have "i' < length new" by simp
    from Cons.IH [OF tl this] Suc show ?thesis by simp
  qed
qed

lemma chain_indices: "chain rs text c 0 new \<Longrightarrow> map index new = [0..<length new]"
  by (rule nth_equalityI) (simp_all add: chain_index_nth)

lemma chain_member:
  "chain rs text c k new \<Longrightarrow> tok \<in> set new \<Longrightarrow> emitted rs text tok"
  by (induction new arbitrary: c k) auto

lemma chain_adjacent:
  assumes "chain rs text c k new" "i + 1 < length new"
  shows "snd (position (new ! i)) \<le> fst (position (new ! (i + 1))) \<and>
         (\<forall>j. snd (position (new ! i)) \<le> j \<and> j < fst (position (new ! (i + 1)))
              \<longrightarrow> first_match rs (text ! j) = None)"
  using assms
proof (induction new arbitrary: c k i)
  case Nil
  then show ?case by simp
next
  case (Cons tok new)
  from Cons.prems(1) have tl: "chain rs text (snd (position tok)) (k + 1) new" by simp
  show ?case
  proof (cases i)
    case 0
    with Cons.prems(2) obtain tok' rest where new: "new = tok' # rest" by (cases new) auto
    with tl 0 show ?thesis by simp
  next
    case (Suc i')
    with Cons.prems(2) have "i' + 1 < length new" by simp
    from Cons.IH [OF tl this] Suc show ?thesis by simp
  qed
qed

lemma chain_first:
  assumes "chain rs text c k new" "new \<noteq> []"
  shows "c \<le> fst (position (new ! 0)) \<and>
         (\<forall>j. c \<le> j \<and> j < fst (position (new ! 0)) \<longrightarrow> first_match rs (text ! j) = None)"
  using assms by (cases new) auto

lemma emitted_facts:
  assumes "emitted rs text tok"
  obtains rule where "fst (position tok) < length text"
    "first_match rs (text ! fst (position tok)) = Some rule"
    "rule \<in> set rs" "accepts (regex rule) (text ! fst (position tok))"
    "token_type tok = rule_type rule"
    "token_value tok = capture rule text (fst (position tok))"
    "snd (position tok) = fst (position tok) + length (token_value tok)"
proof -
  from assms obtain rule where r: "first_match rs (text ! fst (position tok)) = Some rule"
    by (auto simp: emitted_def split: option.splits)
  then have "rule \<in> set rs" "accepts (regex rule) (text ! fst (position tok))"
    by (auto simp: find_Some_iff)
  with assms r that show thesis by (auto simp: emitted_def)
qed

lemma capture_is_take:
  assumes "c < length text"
  shows "capture rule text c = take (length (capture rule text c)) (drop c text)"
proof (cases "shouldCaptureGroup rule")
  case True
  then show ?thesis by (simp add: capture_def takeWhile_eq_take [symmetric])
next
  case False
  with assms show ?thesis by (simp add: capture_def Cons_nth_drop_Suc [symmetric])
qed

lemma capture_length_le:
  assumes "c < length text"
  shows "c + length (capture rule text c) \<le> length text"
proof (cases "shouldCaptureGroup rule")
  case True
  have "length (takeWhile (accepts (regex rule)) (drop c text)) \<le> length (drop c text)"
    by (rule length_takeWhile_le)
  with True assms show ?thesis by (simp add: capture_def)
next
  case False
  with assms show ?thesis by (simp add: capture_def)
qed

lemma capture_split:
  assumes "c < length text"
  shows "drop c text = capture rule text c @ drop (c + length (capture rule text c)) text"
proof -
  have "drop c text = take (length (capture rule text c)) (drop c text)
          @ drop (length (capture rule text c)) (drop c text)"
    by (simp only: append_take_drop_id)
  also have "take (length (capture rule text c)) (drop c text) = capture rule text c"
    using capture_is_take [OF assms, of rule] by simp
  also have "drop (length (capture rule text c)) (drop c text)
      = drop (c + length (capture rule text c)) text"
    by (simp add: add.commute)
  finally show ?thesis .
qed

lemma capture_all_match:
  assumes "accepts (regex rule) (text ! c)" "x \<in> set (capture rule text c)"
  shows "accepts (regex rule) x"
  using assms by (auto simp: capture_def dest: set_takeWhileD split: if_splits)

lemma first_match_None_iff:
  "first_match rs x = None \<longleftrightarrow> (\<forall>rule \<in> set rs. \<not> accepts (regex rule) x)"
  by (auto simp: find_None_iff)

lemma loop_values:
  assumes "all_plain rs"
  shows "concat (map token_value (fst (loop rs text cursor tokens \<sigma>))) =
     concat (map token_value tokens) @ filter (\<lambda>x. first_match rs x \<noteq> None) (drop cursor text)"
proof -
  let ?m = "\<lambda>x. first_match rs x \<noteq> None"
  let ?P = "\<lambda>cursor tokens res.
     concat (map token_value res) = concat (map token_value tokens) @ filter ?m (drop cursor text)"
  have "snd (loop rs text cursor tokens \<sigma>) = \<sigma> \<and>
      ?P cursor tokens (fst (loop rs text cursor tokens \<sigma>))"
  proof (rule loop_result_induct [where P = ?P and rs = rs and s = "text", OF assms], goal_cases)
    case (1 cursor tokens)
    then show ?case by simp
  next
    case (2 cursor tokens res)
    from 2(1) have "drop cursor text = text ! cursor # drop (cursor + 1) text"
      by (simp add: Cons_nth_drop_Suc)
    with 2(2,3) show ?case by simp
  next
    case (3 cursor tokens res rule)
    from 3(2) have mem: "rule \<in> set rs" by (auto simp: find_Some_iff)
    have "\<forall>x \<in> set (capture rule text cursor). ?m x"
    proof
      fix x assume "x \<in> set (capture rule text cursor)"
      with 3(3) have "accepts (regex rule) x" by (rule capture_all_match)
      with mem show "?m x" by (auto simp: first_match_None_iff)
    qed
    then have keep: "filter ?m (capture rule text cursor) = capture rule text cursor"
      by (simp add: filter_id_conv)
    have "filter ?m (drop cursor text) =
        filter ?m (capture rule text cursor)
          @ filter ?m (drop (cursor + length (capture rule text cursor)) text)"
      by (subst capture_split [OF 3(1), of rule]) simp
    with keep 3(4) show ?case by simp
  qed
  then show ?thesis by simp
qed



lemma chain_cover:
  "chain rs text c k new \<Longrightarrow> c \<le> j \<Longrightarrow> j < length text \<Longrightarrow>
     (\<exists>tok \<in> set new. fst (position tok) \<le> j \<and> j < snd (position tok)) \<or>
     first_match rs (text ! j) = None"
proof (induction new arbitrary: c k)
  case Nil
  then show ?case by simp
next
  case (Cons t new)
  from Cons.prems(1) have tl: "chain rs text (snd (position t)) (k + 1) new"
    and gap: "\<forall>i. c \<le> i \<and> i < fst (position t) \<longrightarrow> first_match rs (text ! i) = None"
    by simp_all
  show ?case
  proof (cases "j < fst (position t)")
    case True
    with gap Cons.prems(2) show ?thesis by simp
  next
    case False
    show ?thesis
    proof (cases "j < snd (position t)")
      case True
      with False show ?thesis by auto
    next
      case False
      then have "snd (position t) \<le> j" by simp
      from Cons.IH [OF tl this Cons.prems(3)] show ?thesis by auto
    qed
  qed
qed

lemma tokenize_chain:
  assumes "isString v" "all_plain (rules this)"
  shows "chain (rules this) (chars v) 0 0 (fst (tokenize this v \<sigma>))"
proof -
  obtain new where "fst (loop (rules this) (chars v) 0 [] \<sigma>) = [] @ new"
    and "chain (rules this) (chars v) 0 (length ([] :: 'a Token list)) new"
    using loop_chain [OF assms(2), of "chars v" 0 "[]" \<sigma>] by blast
  with assms show ?thesis by (simp add: tokenize_def)
qed

lemma tokenize_plain_store:
  "all_plain (rules this) \<Longrightarrow> snd (tokenize this v \<sigma>) = \<sigma>"
  by (simp add: tokenize_def loop_plain_store)


section \<open>The claims\<close>


lemma emitted_chars_matched:
  assumes "emitted rs text tok" "fst (position tok) \<le> j" "j < snd (position tok)"
  shows "first_match rs (text ! j) \<noteq> None"
  using assms(1)
proof (rule emitted_facts)
  fix rule
  assume lt: "fst (position tok) < length text" and mem: "rule \<in> set rs"
    and m: "accepts (regex rule) (text ! fst (position tok))"
    and v: "token_value tok = capture rule text (fst (position tok))"
    and e: "snd (position tok) = fst (position tok) + length (token_value tok)"
  let ?s = "fst (position tok)"
  from assms(2,3) e have k: "j - ?s < length (token_value tok)" by arith
  from capture_is_take [OF lt, of rule] v
  have "token_value tok = take (length (token_value tok)) (drop ?s text)" by simp
  then have "token_value tok ! (j - ?s) = take (length (token_value tok)) (drop ?s text) ! (j - ?s)"
    by simp
  also from k have "\<dots> = drop ?s text ! (j - ?s)" by simp
  also from capture_length_le [OF lt, of rule] v e assms(2,3) have "\<dots> = text ! j" by simp
  finally have "text ! j = token_value tok ! (j - ?s)" by simp
  with k have "text ! j \<in> set (capture rule text ?s)" using v by (metis nth_mem)
  with m have "accepts (regex rule) (text ! j)" by (rule capture_all_match)
  with mem show ?thesis by (auto simp: first_match_None_iff)
qed

text \<open>
  C1, as stated, fails for a rule whose regular expression carries the flag \<^verbatim>\<open>g\<close>: with the one
  rule \<^verbatim>\<open>/a/g\<close> the text \<^verbatim>\<open>aa\<close> gives the one token \<^verbatim>\<open>a\<close> at (0, 1); the second \<^verbatim>\<open>a\<close>, which the
  rule matches, is tested from \<^verbatim>\<open>lastIndex\<close> 1 and dropped.
\<close>

theorem values_with_global_flag_counterexample:
  "fst (tokenize \<lparr>rules = [a_global_one]\<rparr> (Str ''aa'') fresh)
     = [\<lparr>index = 0, token_type = ''x'', token_value = ''a'', position = (0, 1)\<rparr>] \<and>
   concat (map token_value (fst (tokenize \<lparr>rules = [a_global_one]\<rparr> (Str ''aa'') fresh))) = ''a'' \<and>
   filter (\<lambda>x. first_match [a_global_one] x \<noteq> None) ''aa'' = ''aa''"
proof -
  have "fst (tokenize \<lparr>rules = [a_global_one]\<rparr> (Str ''aa'') fresh)
     = [\<lparr>index = 0, token_type = ''x'', token_value = ''a'', position = (0, 1)\<rparr>]"
    by code_simp
  moreover have "filter (\<lambda>x. first_match [a_global_one] x \<noteq> None) ''aa'' = ''aa''"
    by (simp add: a_global_one_def a_global_def)
  ultimately show ?thesis by simp
qed

text \<open>
  C1, amended. For a string input and rules whose regular expressions carry neither flag
  \<^verbatim>\<open>g\<close> nor flag \<^verbatim>\<open>y\<close>, the values of the returned tokens, concatenated in order, are the
  characters of the input that at least one rule matches, in their order. A character that
  no rule matches lies in no token; at a cursor on such a character the rules push no token
  and leave the cursor and the store, and the loop goes on from the next cursor with the same
  tokens.
\<close>

theorem tokenize_values_are_the_matched_characters:
  "isString v \<Longrightarrow> all_plain (rules this) \<Longrightarrow>
     concat (map token_value (fst (tokenize this v \<sigma>)))
       = filter (\<lambda>x. first_match (rules this) x \<noteq> None) (chars v) \<and>
     (\<forall>j. j < length (chars v) \<and> first_match (rules this) (chars v ! j) = None \<longrightarrow>
        (\<forall>tok \<in> set (fst (tokenize this v \<sigma>)).
           \<not> (fst (position tok) \<le> j \<and> j < snd (position tok)))) \<and>
     (\<forall>cursor tokens.
        cursor < length (chars v) \<and> first_match (rules this) (chars v ! cursor) = None \<longrightarrow>
        scan_rules (rules this) (chars v) cursor tokens \<sigma> = ((cursor, tokens), \<sigma>) \<and>
        loop (rules this) (chars v) cursor tokens \<sigma>
          = loop (rules this) (chars v) (cursor + 1) tokens \<sigma>)"
proof -
  assume str: "isString v" and pl: "all_plain (rules this)"
  have "concat (map token_value (fst (loop (rules this) (chars v) 0 [] \<sigma>))) =
      filter (\<lambda>x. first_match (rules this) x \<noteq> None) (chars v)"
    using loop_values [OF pl, of "chars v" 0 "[]" \<sigma>] by simp
  with str have vals: "concat (map token_value (fst (tokenize this v \<sigma>)))
       = filter (\<lambda>x. first_match (rules this) x \<noteq> None) (chars v)"
    by (simp add: tokenize_def)
  note ch = tokenize_chain [OF str pl, of \<sigma>]
  have outside: "\<not> (fst (position tok) \<le> j \<and> j < snd (position tok))"
    if "first_match (rules this) (chars v ! j) = None" "tok \<in> set (fst (tokenize this v \<sigma>))"
    for j tok
    using emitted_chars_matched [OF chain_member [OF ch that(2)], of j] that(1) by blast
  from vals outside show ?thesis
    by (simp add: scan_rules_no_match [OF pl] loop_no_match [OF pl])
qed

theorem tokenize_values_are_the_matched_characters_witness:
  "isString (Str ''a.b.'') \<and> all_plain [period] \<and>
   concat (map token_value (fst (tokenize \<lparr>rules = [period]\<rparr> (Str ''a.b.'') fresh))) = ''..'' \<and>
   fst (tokenize \<lparr>rules = [period]\<rparr> (Str ''a.b.'') fresh)
     = [\<lparr>index = 0, token_type = ''period'', token_value = ''.'', position = (1, 2)\<rparr>,
        \<lparr>index = 1, token_type = ''period'', token_value = ''.'', position = (3, 4)\<rparr>] \<and>
   loop [period] ''a.b.'' 0 [] fresh = loop [period] ''a.b.'' 1 [] fresh"
proof -
  have str: "isString (Str ''a.b.'')" by simp
  have pl: "all_plain (rules \<lparr>rules = [period]\<rparr>)" by (simp add: period_def)
  have f: "filter (\<lambda>x. first_match [period] x \<noteq> None) ''a.b.'' = ''..''"
    by (simp add: period_def)
  have c: "(0::nat) < length ''a.b.'' \<and> first_match [period] (''a.b.'' ! 0) = None"
    by (simp add: period_def)
  have toks: "fst (tokenize \<lparr>rules = [period]\<rparr> (Str ''a.b.'') fresh)
     = [\<lparr>index = 0, token_type = ''period'', token_value = ''.'', position = (1, 2)\<rparr>,
        \<lparr>index = 1, token_type = ''period'', token_value = ''.'', position = (3, 4)\<rparr>]"
    by code_simp
  note inst = tokenize_values_are_the_matched_characters [OF str pl, of fresh]
  from inst have "concat (map token_value (fst (tokenize \<lparr>rules = [period]\<rparr> (Str ''a.b.'') fresh)))
      = filter (\<lambda>x. first_match [period] x \<noteq> None) ''a.b.''"
    by simp
  moreover from inst c
  have "loop [period] ''a.b.'' 0 [] fresh = loop [period] ''a.b.'' (0 + 1) [] fresh"
    by (metis Tokenizer.select_convs(1) chars.simps(1))
  ultimately show ?thesis using str pl f toks by simp
qed



lemma scan_rules_only_first:
  assumes "all_plain pre" "\<forall>r \<in> set pre. \<not> accepts (regex r) (text ! cursor)"
    "plain (regex rule)" "accepts (regex rule) (text ! cursor)"
  shows "scan_rules (pre @ rule # post) text cursor tokens \<sigma>
           = scan_rules [rule] text cursor tokens \<sigma>"
  using assms by (induction pre) (simp_all add: Let_def RegExp_test_plain)

text \<open>
  C2, as stated, fails for a rule whose regular expression carries the flag \<^verbatim>\<open>g\<close>: with the
  rules \<^verbatim>\<open>x: /a/g\<close> and \<^verbatim>\<open>y: /a/\<close>, in this order, the text \<^verbatim>\<open>aa\<close> gives a token of type
  \<^verbatim>\<open>x\<close> and then a token of type \<^verbatim>\<open>y\<close>, though \<^verbatim>\<open>x\<close> is the first rule of the list that
  matches the second \<^verbatim>\<open>a\<close>.
\<close>

theorem first_rule_with_global_flag_counterexample:
  "fst (tokenize \<lparr>rules = [a_global_one, a_plain_one]\<rparr> (Str ''aa'') fresh)
     = [\<lparr>index = 0, token_type = ''x'', token_value = ''a'', position = (0, 1)\<rparr>,
        \<lparr>index = 1, token_type = ''y'', token_value = ''a'', position = (1, 2)\<rparr>] \<and>
   map_option rule_type (first_match [a_global_one, a_plain_one] (''aa'' ! 1)) = Some ''x''"
proof -
  have "fst (tokenize \<lparr>rules = [a_global_one, a_plain_one]\<rparr> (Str ''aa'') fresh)
     = [\<lparr>index = 0, token_type = ''x'', token_value = ''a'', position = (0, 1)\<rparr>,
        \<lparr>index = 1, token_type = ''y'', token_value = ''a'', position = (1, 2)\<rparr>]"
    by code_simp
  moreover have
    "map_option rule_type (first_match [a_global_one, a_plain_one] (''aa'' ! 1)) = Some ''x''"
    by (simp add: a_global_one_def a_global_def)
  ultimately show ?thesis by simp
qed

text \<open>
  C2, amended. For rules whose regular expressions carry neither flag \<^verbatim>\<open>g\<close> nor flag
  \<^verbatim>\<open>y\<close>, every token returned for a string input has the type of the first rule, in list
  order, that matches the character at the token's start; and every position of the input
  whose character some rule matches either lies inside a token that starts before it, or is
  the start of a token of the type of the first rule that matches its character. At a cursor
  where the rules before
  \<open>rule\<close> are plain and do not match the character and \<open>rule\<close> is plain and does, the
  cursor, the tokens and the store after the pass over the rules are those of \<open>rule\<close> alone,
  whatever rules come after it, and the token pushed has the type of \<open>rule\<close>.
\<close>

theorem token_type_of_first_matching_rule:
  "(isString v \<and> all_plain (rules this) \<and> tok \<in> set (fst (tokenize this v \<sigma>)) \<longrightarrow>
      map_option rule_type (first_match (rules this) (chars v ! fst (position tok)))
        = Some (token_type tok)) \<and>
   (isString v \<and> all_plain (rules this) \<and> j < length (chars v) \<and>
    first_match (rules this) (chars v ! j) = Some r \<longrightarrow>
      (\<exists>t \<in> set (fst (tokenize this v \<sigma>)). fst (position t) < j \<and> j < snd (position t)) \<or>
      (\<exists>t \<in> set (fst (tokenize this v \<sigma>)). fst (position t) = j \<and>
                                             token_type t = rule_type r)) \<and>
   (all_plain pre \<and> (\<forall>r \<in> set pre. \<not> accepts (regex r) (text ! cursor)) \<and>
    plain (regex rule) \<and> accepts (regex rule) (text ! cursor) \<longrightarrow>
      scan_rules (pre @ rule # post) text cursor tokens \<sigma>
        = scan_rules [rule] text cursor tokens \<sigma> \<and>
      scan_rules (pre @ rule # post) text cursor tokens \<sigma>
        = scan_rules (pre @ rule # post') text cursor tokens \<sigma> \<and>
      token_type (last (snd (fst (scan_rules (pre @ rule # post) text cursor tokens \<sigma>))))
        = rule_type rule)"
proof -
  have first: "map_option rule_type (first_match (rules this) (chars v ! fst (position tok)))
        = Some (token_type tok)"
    if "isString v" "all_plain (rules this)" "tok \<in> set (fst (tokenize this v \<sigma>))"
  proof -
    from that(1,2) have "chain (rules this) (chars v) 0 0 (fst (tokenize this v \<sigma>))"
      by (rule tokenize_chain)
    from chain_member [OF this that(3)] show ?thesis
      by (rule emitted_facts) simp
  qed
  have reached: "(\<exists>t \<in> set (fst (tokenize this v \<sigma>)). fst (position t) < j \<and> j < snd (position t)) \<or>
      (\<exists>t \<in> set (fst (tokenize this v \<sigma>)). fst (position t) = j \<and>
                                             token_type t = rule_type r)"
    if "isString v" "all_plain (rules this)" "j < length (chars v)"
      "first_match (rules this) (chars v ! j) = Some r"
  proof -
    from that(1,2) have ch: "chain (rules this) (chars v) 0 0 (fst (tokenize this v \<sigma>))"
      by (rule tokenize_chain)
    from chain_cover [OF ch _ that(3)] that(4)
    obtain t where t: "t \<in> set (fst (tokenize this v \<sigma>))" "fst (position t) \<le> j"
      "j < snd (position t)"
      by auto
    show ?thesis
    proof (cases "fst (position t) = j")
      case True
      from chain_member [OF ch t(1)] have "token_type t = rule_type r"
        by (rule emitted_facts) (use True that(4) in simp)
      with t(1) True show ?thesis by blast
    next
      case False
      with t have "fst (position t) < j" by simp
      with t show ?thesis by blast
    qed
  qed
  have second: "scan_rules (pre @ rule # post) text cursor tokens \<sigma>
        = scan_rules [rule] text cursor tokens \<sigma> \<and>
      scan_rules (pre @ rule # post) text cursor tokens \<sigma>
        = scan_rules (pre @ rule # post') text cursor tokens \<sigma> \<and>
      token_type (last (snd (fst (scan_rules (pre @ rule # post) text cursor tokens \<sigma>))))
        = rule_type rule"
    if "all_plain pre" "\<forall>r \<in> set pre. \<not> accepts (regex r) (text ! cursor)"
      "plain (regex rule)" "accepts (regex rule) (text ! cursor)"
  proof -
    from that have a: "scan_rules (pre @ rule # post) text cursor tokens \<sigma>
        = scan_rules [rule] text cursor tokens \<sigma>"
      by (rule scan_rules_only_first)
    from that have b: "scan_rules (pre @ rule # post') text cursor tokens \<sigma>
        = scan_rules [rule] text cursor tokens \<sigma>"
      by (rule scan_rules_only_first)
    from that(3,4)
    have "token_type (last (snd (fst (scan_rules [rule] text cursor tokens \<sigma>))))
        = rule_type rule"
      by (simp add: Let_def RegExp_test_plain split: prod.splits)
    with a b show ?thesis by simp
  qed
  from first reached second show ?thesis by blast
qed

theorem token_type_of_first_matching_rule_witness:
  "isString (Str ''abba.ab'') \<and> all_plain [a_one, ab_run] \<and>
   \<lparr>index = 1, token_type = ''ab'', token_value = ''bba'', position = (1, 4)\<rparr>
     \<in> set (fst (tokenize \<lparr>rules = [a_one, ab_run]\<rparr> (Str ''abba.ab'') fresh)) \<and>
   map_option rule_type (first_match [a_one, ab_run] (''abba.ab'' ! 1)) = Some ''ab'' \<and>
   (1 :: nat) < length ''abba.ab'' \<and> first_match [a_one, ab_run] (''abba.ab'' ! 1) = Some ab_run \<and>
   ((\<exists>t \<in> set (fst (tokenize \<lparr>rules = [a_one, ab_run]\<rparr> (Str ''abba.ab'') fresh)).
       fst (position t) < 1 \<and> 1 < snd (position t)) \<or>
    (\<exists>t \<in> set (fst (tokenize \<lparr>rules = [a_one, ab_run]\<rparr> (Str ''abba.ab'') fresh)).
       fst (position t) = 1 \<and> token_type t = rule_type ab_run)) \<and>
   all_plain [period] \<and> \<not> accepts (regex period) (''abba.ab'' ! 0) \<and>
   plain (regex a_one) \<and> accepts (regex a_one) (''abba.ab'' ! 0) \<and>
   scan_rules ([period] @ a_one # [ab_run]) ''abba.ab'' 0 [] fresh
     = scan_rules ([period] @ a_one # []) ''abba.ab'' 0 [] fresh \<and>
   token_type (last (snd (fst (scan_rules ([period] @ a_one # [ab_run]) ''abba.ab'' 0 [] fresh))))
     = ''a''"
proof -
  let ?tok = "\<lparr>index = 1, token_type = ''ab'', token_value = ''bba'', position = (1, 4)\<rparr>"
  have h1: "isString (Str ''abba.ab'') \<and> all_plain (rules \<lparr>rules = [a_one, ab_run]\<rparr>) \<and>
      ?tok \<in> set (fst (tokenize \<lparr>rules = [a_one, ab_run]\<rparr> (Str ''abba.ab'') fresh))"
    by code_simp
  have h2: "all_plain [period] \<and> (\<forall>r \<in> set [period]. \<not> accepts (regex r) (''abba.ab'' ! 0)) \<and>
      plain (regex a_one) \<and> accepts (regex a_one) (''abba.ab'' ! 0)"
    by (simp add: period_def a_one_def)
  note inst = token_type_of_first_matching_rule [where v = "Str ''abba.ab''"
      and this = "\<lparr>rules = [a_one, ab_run]\<rparr>" and tok = ?tok and \<sigma> = fresh
      and pre = "[period]" and cursor = 0 and rule = a_one and post = "[ab_run]"
      and tokens = "[]" and post' = "[]" and j = 1 and r = ab_run, of "''abba.ab''"]
  from inst h1
  have w4: "map_option rule_type (first_match [a_one, ab_run] (''abba.ab'' ! 1)) = Some ''ab''"
    by simp
  from inst h2 have sc: "scan_rules ([period] @ a_one # [ab_run]) ''abba.ab'' 0 [] fresh
     = scan_rules ([period] @ a_one # []) ''abba.ab'' 0 [] fresh \<and>
     token_type (last (snd (fst (scan_rules ([period] @ a_one # [ab_run]) ''abba.ab'' 0 [] fresh))))
       = rule_type a_one"
    by blast
  have rt: "rule_type a_one = ''a''" by (simp add: a_one_def)
  from sc
  have "token_type (last (snd (fst (scan_rules ([period] @ a_one # [ab_run]) ''abba.ab'' 0 [] fresh))))
       = rule_type a_one"
    by (rule conjunct2)
  also note rt
  finally have w10:
    "token_type (last (snd (fst (scan_rules ([period] @ a_one # [ab_run]) ''abba.ab'' 0 [] fresh))))
       = ''a''" .
  from h1 have w1: "isString (Str ''abba.ab'')" and w2: "all_plain [a_one, ab_run]"
    and w3: "?tok \<in> set (fst (tokenize \<lparr>rules = [a_one, ab_run]\<rparr> (Str ''abba.ab'') fresh))"
    by simp_all
  from h2 have w5: "all_plain [period]" and w6: "\<not> accepts (regex period) (''abba.ab'' ! 0)"
    and w7: "plain (regex a_one)" and w8: "accepts (regex a_one) (''abba.ab'' ! 0)"
    by simp_all
  have h3: "(1 :: nat) < length (chars (Str ''abba.ab'')) \<and>
      first_match (rules \<lparr>rules = [a_one, ab_run]\<rparr>) (chars (Str ''abba.ab'') ! 1) = Some ab_run"
    by (simp add: a_one_def ab_run_def)
  from inst h1 h3
  have w11: "(\<exists>t \<in> set (fst (tokenize \<lparr>rules = [a_one, ab_run]\<rparr> (Str ''abba.ab'') fresh)).
       fst (position t) < 1 \<and> 1 < snd (position t)) \<or>
    (\<exists>t \<in> set (fst (tokenize \<lparr>rules = [a_one, ab_run]\<rparr> (Str ''abba.ab'') fresh)).
       fst (position t) = 1 \<and> token_type t = rule_type ab_run)"
    by blast
  from h3 have w12: "(1 :: nat) < length ''abba.ab''"
    and w13: "first_match [a_one, ab_run] (''abba.ab'' ! 1) = Some ab_run"
    by simp_all
  from w1 w2 w3 w4 w5 w6 w7 w8 sc w10 w11 w12 w13 show ?thesis by blast
qed









text \<open>
  C9. Every token returned for a string input, whatever the rules and their regular
  expressions, has a non-empty span inside the input (the start is a natural number, so
  \<open>0 \<le> start\<close> holds by type): \<open>start < end \<le> length\<close>, its value has
  \<open>end - start\<close> characters and is the substring of the input from \<open>start\<close> up to
  \<open>end\<close>.
\<close>

theorem token_span_inside_input:
  "isString v \<Longrightarrow> tok \<in> set (fst (tokenize this v \<sigma>)) \<Longrightarrow>
     fst (position tok) < snd (position tok) \<and>
     snd (position tok) \<le> length (chars v) \<and>
     length (token_value tok) = snd (position tok) - fst (position tok) \<and>
     token_value tok
       = take (snd (position tok) - fst (position tok)) (drop (fst (position tok)) (chars v))"
proof -
  assume str: "isString v" and mem: "tok \<in> set (fst (tokenize this v \<sigma>))"
  from str have "spans (chars v) 0 0 (fst (tokenize this v \<sigma>))" by (rule tokenize_spans)
  from spans_member [OF this mem]
  have a: "fst (position tok) < snd (position tok)"
    and b: "snd (position tok) \<le> length (chars v)"
    and c: "token_value tok
       = take (snd (position tok) - fst (position tok)) (drop (fst (position tok)) (chars v))"
    by simp_all
  from c have "length (token_value tok)
      = length (take (snd (position tok) - fst (position tok)) (drop (fst (position tok)) (chars v)))"
    by simp
  with a b have "length (token_value tok) = snd (position tok) - fst (position tok)" by simp
  with a b c show ?thesis by blast
qed

theorem token_span_inside_input_witness:
  "isString (Str ''abba.ab'') \<and>
   \<lparr>index = 1, token_type = ''ab'', token_value = ''bba'', position = (1, 4)\<rparr>
     \<in> set (fst (tokenize \<lparr>rules = [a_one, ab_run]\<rparr> (Str ''abba.ab'') fresh)) \<and>
   (1 :: nat) < 4 \<and> 4 \<le> length ''abba.ab'' \<and> length ''bba'' = 4 - 1 \<and>
   ''bba'' = take (4 - 1) (drop 1 ''abba.ab'')"
proof -
  let ?tok = "\<lparr>index = 1, token_type = ''ab'', token_value = ''bba'', position = (1, 4)\<rparr>"
  have str: "isString (Str ''abba.ab'')" by simp
  have mem: "?tok \<in> set (fst (tokenize \<lparr>rules = [a_one, ab_run]\<rparr> (Str ''abba.ab'') fresh))"
    by code_simp
  from token_span_inside_input [OF str mem] str mem show ?thesis by simp
qed

lemma spans_sorted:
  "spans text c k new \<Longrightarrow>
     sorted_wrt (\<lambda>a b. snd (position a) \<le> fst (position b)) new \<and>
     (\<forall>t \<in> set new. c \<le> fst (position t) \<and> fst (position t) < snd (position t))"
proof (induction new arbitrary: c k)
  case Nil
  show ?case by simp
next
  case (Cons tok new)
  from Cons.prems have tl: "spans text (snd (position tok)) (k + 1) new"
    and c: "c \<le> fst (position tok)" and ne: "fst (position tok) < snd (position tok)"
    by simp_all
  from Cons.IH [OF tl] have srt: "sorted_wrt (\<lambda>a b. snd (position a) \<le> fst (position b)) new"
    and later: "\<forall>t \<in> set new. snd (position tok) \<le> fst (position t) \<and>
        fst (position t) < snd (position t)"
    by simp_all
  from later c ne have "\<forall>t \<in> set new. c \<le> fst (position t)" by auto
  with srt later c ne show ?case by simp
qed

lemma spans_gap_uncovered:
  assumes sp: "spans text c k new" and i: "i + 1 < length new"
    and j: "snd (position (new ! i)) \<le> j" "j < fst (position (new ! (i + 1)))"
    and t: "t \<in> set new"
  shows "\<not> (fst (position t) \<le> j \<and> j < snd (position t))"
proof -
  from spans_sorted [OF sp]
  have srt: "sorted_wrt (\<lambda>a b. snd (position a) \<le> fst (position b)) new"
    and ne: "\<forall>t \<in> set new. fst (position t) < snd (position t)"
    by simp_all
  have before: "snd (position (new ! m)) \<le> fst (position (new ! n))"
    if "m < n" "n < length new" for m n
    using srt that by (simp add: sorted_wrt_iff_nth_less)
  from t obtain m where m: "m < length new" "t = new ! m" by (auto simp: in_set_conv_nth)
  show ?thesis
  proof (cases "m \<le> i")
    case True
    have "snd (position (new ! m)) \<le> snd (position (new ! i))"
    proof (cases "m = i")
      case True
      then show ?thesis by simp
    next
      case False
      with \<open>m \<le> i\<close> have lt: "m < i" by simp
      from i have il: "i < length new" by simp
      from before [OF lt il] ne il have "snd (position (new ! m)) \<le> fst (position (new ! i))"
        and "fst (position (new ! i)) < snd (position (new ! i))" by simp_all
      then show ?thesis by simp
    qed
    with j(1) m(2) show ?thesis by simp
  next
    case False
    then have ge: "i + 1 \<le> m" by simp
    have "fst (position (new ! (i + 1))) \<le> fst (position (new ! m))"
    proof (cases "m = i + 1")
      case True
      then show ?thesis by simp
    next
      case False
      with ge have lt: "i + 1 < m" by simp
      from before [OF lt m(1)] ne i
      have "snd (position (new ! (i + 1))) \<le> fst (position (new ! m))"
        and "fst (position (new ! (i + 1))) < snd (position (new ! (i + 1)))" by simp_all
      then show ?thesis by simp
    qed
    with j(2) m(2) show ?thesis by simp
  qed
qed

text \<open>
  C5. The tokens returned for a string input carry the indices \<open>0, 1, \<dots>, N - 1\<close> in
  order. For two adjacent tokens the first has a non-empty span that ends at or before the
  start of the second, no token contains a character that lies between them (these are the
  dropped characters), and so, when no character between them is a dropped one, the end of the
  first is the start of the second. This holds whatever the rules and their regular
  expressions. When the regular expressions carry neither flag \<^verbatim>\<open>g\<close> nor flag \<^verbatim>\<open>y\<close>, the
  characters between two adjacent tokens are, more, characters that no rule matches, and the
  end of the first is the start of the second when some rule matches every character between
  them.
\<close>

theorem token_indices_and_spans_in_order:
  "isString v \<Longrightarrow> toks = fst (tokenize this v \<sigma>) \<Longrightarrow>
     map index toks = [0..<length toks] \<and>
     (\<forall>i. i + 1 < length toks \<longrightarrow>
        fst (position (toks ! i)) < snd (position (toks ! i)) \<and>
        snd (position (toks ! i)) \<le> fst (position (toks ! (i + 1))) \<and>
        (\<forall>j. snd (position (toks ! i)) \<le> j \<and> j < fst (position (toks ! (i + 1))) \<longrightarrow>
             (\<forall>t \<in> set toks. \<not> (fst (position t) \<le> j \<and> j < snd (position t)))) \<and>
        ((\<forall>j. snd (position (toks ! i)) \<le> j \<and> j < fst (position (toks ! (i + 1))) \<longrightarrow>
             (\<exists>t \<in> set toks. fst (position t) \<le> j \<and> j < snd (position t))) \<longrightarrow>
         snd (position (toks ! i)) = fst (position (toks ! (i + 1))))) \<and>
     (all_plain (rules this) \<longrightarrow>
      (\<forall>i. i + 1 < length toks \<longrightarrow>
        (\<forall>j. snd (position (toks ! i)) \<le> j \<and> j < fst (position (toks ! (i + 1))) \<longrightarrow>
             first_match (rules this) (chars v ! j) = None) \<and>
        ((\<forall>j. snd (position (toks ! i)) \<le> j \<and> j < fst (position (toks ! (i + 1))) \<longrightarrow>
             first_match (rules this) (chars v ! j) \<noteq> None) \<longrightarrow>
         snd (position (toks ! i)) = fst (position (toks ! (i + 1))))))"
proof -
  assume str: "isString v" and toks: "toks = fst (tokenize this v \<sigma>)"
  from str toks have sp: "spans (chars v) 0 0 toks" by (simp add: tokenize_spans)
  then have idx: "map index toks = [0..<length toks]" by (rule spans_indices)
  have order: "fst (position (toks ! i)) < snd (position (toks ! i)) \<and>
        snd (position (toks ! i)) \<le> fst (position (toks ! (i + 1))) \<and>
        (\<forall>j. snd (position (toks ! i)) \<le> j \<and> j < fst (position (toks ! (i + 1))) \<longrightarrow>
             (\<forall>t \<in> set toks. \<not> (fst (position t) \<le> j \<and> j < snd (position t)))) \<and>
        ((\<forall>j. snd (position (toks ! i)) \<le> j \<and> j < fst (position (toks ! (i + 1))) \<longrightarrow>
             (\<exists>t \<in> set toks. fst (position t) \<le> j \<and> j < snd (position t))) \<longrightarrow>
         snd (position (toks ! i)) = fst (position (toks ! (i + 1))))"
    if i: "i + 1 < length toks" for i
  proof -
    from i have "toks ! i \<in> set toks" by simp
    from spans_member [OF sp this] spans_adjacent [OF sp i]
    have ord: "fst (position (toks ! i)) < snd (position (toks ! i))"
      "snd (position (toks ! i)) \<le> fst (position (toks ! (i + 1)))" by simp_all
    have unc: "\<not> (fst (position t) \<le> j \<and> j < snd (position t))"
      if "snd (position (toks ! i)) \<le> j" "j < fst (position (toks ! (i + 1)))" "t \<in> set toks"
      for j t
      using spans_gap_uncovered [OF sp i that] .
    have "snd (position (toks ! i)) = fst (position (toks ! (i + 1)))"
      if all: "\<forall>j. snd (position (toks ! i)) \<le> j \<and> j < fst (position (toks ! (i + 1))) \<longrightarrow>
             (\<exists>t \<in> set toks. fst (position t) \<le> j \<and> j < snd (position t))"
    proof (rule ccontr)
      assume "snd (position (toks ! i)) \<noteq> fst (position (toks ! (i + 1)))"
      with ord have lt: "snd (position (toks ! i)) < fst (position (toks ! (i + 1)))" by simp
      with all obtain t where "t \<in> set toks"
        "fst (position t) \<le> snd (position (toks ! i)) \<and> snd (position (toks ! i)) < snd (position t)"
        by blast
      with unc [OF le_refl lt] show False by blast
    qed
    with ord unc show ?thesis by blast
  qed
  have gaps: "(\<forall>j. snd (position (toks ! i)) \<le> j \<and> j < fst (position (toks ! (i + 1))) \<longrightarrow>
             first_match (rules this) (chars v ! j) = None) \<and>
        ((\<forall>j. snd (position (toks ! i)) \<le> j \<and> j < fst (position (toks ! (i + 1))) \<longrightarrow>
             first_match (rules this) (chars v ! j) \<noteq> None) \<longrightarrow>
         snd (position (toks ! i)) = fst (position (toks ! (i + 1))))"
    if pl: "all_plain (rules this)" and i: "i + 1 < length toks" for i
  proof -
    from str pl toks have ch: "chain (rules this) (chars v) 0 0 toks"
      by (simp add: tokenize_chain)
    note gap = chain_adjacent [OF ch i]
    moreover have "snd (position (toks ! i)) = fst (position (toks ! (i + 1)))"
      if all: "\<forall>j. snd (position (toks ! i)) \<le> j \<and> j < fst (position (toks ! (i + 1))) \<longrightarrow>
             first_match (rules this) (chars v ! j) \<noteq> None"
    proof (rule ccontr)
      assume "snd (position (toks ! i)) \<noteq> fst (position (toks ! (i + 1)))"
      with gap have lt: "snd (position (toks ! i)) < fst (position (toks ! (i + 1)))" by simp
      with gap have "first_match (rules this) (chars v ! snd (position (toks ! i))) = None"
        by simp
      moreover from all lt
      have "first_match (rules this) (chars v ! snd (position (toks ! i))) \<noteq> None" by simp
      ultimately show False by simp
    qed
    ultimately show ?thesis by blast
  qed
  from idx order gaps show ?thesis by blast
qed

theorem token_indices_and_spans_in_order_witness:
  "isString (Str ''a.b.'') \<and> all_plain [period] \<and>
   fst (tokenize \<lparr>rules = [period]\<rparr> (Str ''a.b.'') fresh)
     = [\<lparr>index = 0, token_type = ''period'', token_value = ''.'', position = (1, 2)\<rparr>,
        \<lparr>index = 1, token_type = ''period'', token_value = ''.'', position = (3, 4)\<rparr>] \<and>
   (0 :: nat) + 1 < 2 \<and> (2 :: nat) \<le> 3 \<and> first_match [period] (''a.b.'' ! 2) = None"
proof -
  let ?toks = "[\<lparr>index = 0, token_type = ''period'', token_value = ''.'', position = (1, 2)\<rparr>,
        \<lparr>index = 1, token_type = ''period'', token_value = ''.'', position = (3, 4)\<rparr>]"
  have str: "isString (Str ''a.b.'')" by simp
  have pl: "all_plain (rules \<lparr>rules = [period]\<rparr>)" by (simp add: period_def)
  have toks: "?toks = fst (tokenize \<lparr>rules = [period]\<rparr> (Str ''a.b.'') fresh)" by code_simp
  have i: "(0 :: nat) + 1 < length ?toks" by simp
  from token_indices_and_spans_in_order [OF str toks] pl i
  have "\<forall>j. snd (position (?toks ! 0)) \<le> j \<and> j < fst (position (?toks ! (0 + 1))) \<longrightarrow>
             first_match (rules \<lparr>rules = [period]\<rparr>) (chars (Str ''a.b.'') ! j) = None"
    by blast
  then have "snd (position (?toks ! 0)) \<le> 2 \<and> 2 < fst (position (?toks ! (0 + 1))) \<longrightarrow>
             first_match (rules \<lparr>rules = [period]\<rparr>) (chars (Str ''a.b.'') ! 2) = None"
    by (rule spec)
  then have "first_match [period] (''a.b.'' ! 2) = None" by simp
  with str pl toks [symmetric] show ?thesis by simp
qed

text \<open>
  C4, as stated, fails in two ways. Where characters are dropped: with one rule for the
  period, the text \<^verbatim>\<open>a.b.\<close> gives two tokens at (1, 2) and (3, 4); the first does not start
  at 0 and does not end where the second starts. And where a regular expression carries the
  flag \<^verbatim>\<open>g\<close>: with the one rule \<^verbatim>\<open>/a/g\<close> the text \<^verbatim>\<open>aaa\<close>, all of whose characters the rule
  matches, gives two tokens at (0, 1) and (2, 3).
\<close>

theorem contiguous_coverage_counterexample:
  "length (fst (tokenize \<lparr>rules = [period]\<rparr> (Str ''a.b.'') fresh)) = 2 \<and>
   fst (position (fst (tokenize \<lparr>rules = [period]\<rparr> (Str ''a.b.'') fresh) ! 0)) \<noteq> 0 \<and>
   snd (position (fst (tokenize \<lparr>rules = [period]\<rparr> (Str ''a.b.'') fresh) ! 0))
     \<noteq> fst (position (fst (tokenize \<lparr>rules = [period]\<rparr> (Str ''a.b.'') fresh) ! 1)) \<and>
   filter (\<lambda>x. first_match [a_global_one] x \<noteq> None) ''aaa'' = ''aaa'' \<and>
   length (fst (tokenize \<lparr>rules = [a_global_one]\<rparr> (Str ''aaa'') fresh)) = 2 \<and>
   snd (position (fst (tokenize \<lparr>rules = [a_global_one]\<rparr> (Str ''aaa'') fresh) ! 0))
     \<noteq> fst (position (fst (tokenize \<lparr>rules = [a_global_one]\<rparr> (Str ''aaa'') fresh) ! 1)) \<and>
   concat (map token_value (fst (tokenize \<lparr>rules = [a_global_one]\<rparr> (Str ''aaa'') fresh)))
     \<noteq> ''aaa''"
proof -
  have "fst (tokenize \<lparr>rules = [period]\<rparr> (Str ''a.b.'') fresh)
     = [\<lparr>index = 0, token_type = ''period'', token_value = ''.'', position = (1, 2)\<rparr>,
        \<lparr>index = 1, token_type = ''period'', token_value = ''.'', position = (3, 4)\<rparr>]"
    by code_simp
  moreover have "fst (tokenize \<lparr>rules = [a_global_one]\<rparr> (Str ''aaa'') fresh)
     = [\<lparr>index = 0, token_type = ''x'', token_value = ''a'', position = (0, 1)\<rparr>,
        \<lparr>index = 1, token_type = ''x'', token_value = ''a'', position = (2, 3)\<rparr>]"
    by code_simp
  moreover have "filter (\<lambda>x. first_match [a_global_one] x \<noteq> None) ''aaa'' = ''aaa''"
    by (simp add: a_global_one_def a_global_def)
  ultimately show ?thesis by simp
qed

text \<open>
  C4, amended. For a string input and rules whose regular expressions carry neither flag
  \<^verbatim>\<open>g\<close> nor flag \<^verbatim>\<open>y\<close>: each token ends at or before the start of the next one, and ends
  exactly there if and only if some rule matches the character at its end (no character is
  dropped between the two); when there is a token, the first one starts at 0 if and only if
  some rule matches the first character of the input; and the values of the tokens
  concatenate to the characters of the input that some rule matches, which is the whole input
  when some rule matches every character.
\<close>

theorem contiguous_coverage_where_nothing_is_dropped:
  "isString v \<Longrightarrow> all_plain (rules this) \<Longrightarrow> toks = fst (tokenize this v \<sigma>) \<Longrightarrow>
     (\<forall>i. i + 1 < length toks \<longrightarrow>
        snd (position (toks ! i)) \<le> fst (position (toks ! (i + 1))) \<and>
        (snd (position (toks ! i)) = fst (position (toks ! (i + 1))) \<longleftrightarrow>
         first_match (rules this) (chars v ! snd (position (toks ! i))) \<noteq> None)) \<and>
     (toks \<noteq> [] \<longrightarrow>
        (fst (position (toks ! 0)) = 0 \<longleftrightarrow> first_match (rules this) (chars v ! 0) \<noteq> None)) \<and>
     concat (map token_value toks)
       = filter (\<lambda>x. first_match (rules this) x \<noteq> None) (chars v) \<and>
     ((\<forall>x \<in> set (chars v). first_match (rules this) x \<noteq> None) \<longrightarrow>
        concat (map token_value toks) = chars v \<and>
        (\<forall>i. i + 1 < length toks \<longrightarrow>
           snd (position (toks ! i)) = fst (position (toks ! (i + 1)))) \<and>
        (toks \<noteq> [] \<longrightarrow> fst (position (toks ! 0)) = 0))"
proof -
  assume str: "isString v" and pl: "all_plain (rules this)"
    and toks: "toks = fst (tokenize this v \<sigma>)"
  from str pl toks have ch: "chain (rules this) (chars v) 0 0 toks" by (simp add: tokenize_chain)
  have start_matched: "fst (position tok) < length (chars v) \<and>
      first_match (rules this) (chars v ! fst (position tok)) \<noteq> None"
    if "tok \<in> set toks" for tok
    using chain_member [OF ch that] by (rule emitted_facts) simp
  have adj: "snd (position (toks ! i)) \<le> fst (position (toks ! (i + 1))) \<and>
        (snd (position (toks ! i)) = fst (position (toks ! (i + 1))) \<longleftrightarrow>
         first_match (rules this) (chars v ! snd (position (toks ! i))) \<noteq> None)"
    if i: "i + 1 < length toks" for i
  proof -
    note gap = chain_adjacent [OF ch i]
    from i have "toks ! (i + 1) \<in> set toks" by simp
    note nxt = start_matched [OF this]
    have "first_match (rules this) (chars v ! snd (position (toks ! i))) \<noteq> None"
      if "snd (position (toks ! i)) = fst (position (toks ! (i + 1)))"
      using nxt that by simp
    moreover have "snd (position (toks ! i)) = fst (position (toks ! (i + 1)))"
      if m: "first_match (rules this) (chars v ! snd (position (toks ! i))) \<noteq> None"
    proof (rule ccontr)
      assume "snd (position (toks ! i)) \<noteq> fst (position (toks ! (i + 1)))"
      with gap have "snd (position (toks ! i)) < fst (position (toks ! (i + 1)))" by simp
      with gap have "first_match (rules this) (chars v ! snd (position (toks ! i))) = None"
        by simp
      with m show False by simp
    qed
    ultimately show ?thesis using gap by blast
  qed
  have first: "fst (position (toks ! 0)) = 0 \<longleftrightarrow> first_match (rules this) (chars v ! 0) \<noteq> None"
    if ne: "toks \<noteq> []"
  proof -
    from ne have "toks ! 0 \<in> set toks" by simp
    note st = start_matched [OF this]
    note gap = chain_first [OF ch ne]
    have "first_match (rules this) (chars v ! 0) \<noteq> None" if "fst (position (toks ! 0)) = 0"
      using st that by simp
    moreover have "fst (position (toks ! 0)) = 0"
      if m: "first_match (rules this) (chars v ! 0) \<noteq> None"
    proof (rule ccontr)
      assume "fst (position (toks ! 0)) \<noteq> 0"
      then have "0 < fst (position (toks ! 0))" by simp
      with gap have "first_match (rules this) (chars v ! 0) = None" by simp
      with m show False by simp
    qed
    ultimately show ?thesis by blast
  qed
  from str toks have vals: "concat (map token_value toks)
       = filter (\<lambda>x. first_match (rules this) x \<noteq> None) (chars v)"
    using loop_values [OF pl, of "chars v" 0 "[]" \<sigma>] by (simp add: tokenize_def)
  have whole: "concat (map token_value toks) = chars v \<and>
        (\<forall>i. i + 1 < length toks \<longrightarrow>
           snd (position (toks ! i)) = fst (position (toks ! (i + 1)))) \<and>
        (toks \<noteq> [] \<longrightarrow> fst (position (toks ! 0)) = 0)"
    if all: "\<forall>x \<in> set (chars v). first_match (rules this) x \<noteq> None"
  proof -
    have matched: "first_match (rules this) (chars v ! j) \<noteq> None" if "j < length (chars v)" for j
      using all that by simp
    from all vals have "concat (map token_value toks) = chars v" by (simp add: filter_id_conv)
    moreover have "snd (position (toks ! i)) = fst (position (toks ! (i + 1)))"
      if i: "i + 1 < length toks" for i
    proof -
      from i have "toks ! (i + 1) \<in> set toks" by simp
      from start_matched [OF this] adj [OF i]
      have "snd (position (toks ! i)) < length (chars v)" by arith
      from matched [OF this] adj [OF i] show ?thesis by blast
    qed
    moreover have "fst (position (toks ! 0)) = 0" if ne: "toks \<noteq> []"
    proof -
      from ne have "toks ! 0 \<in> set toks" by simp
      from start_matched [OF this] have "0 < length (chars v)" by arith
      from matched [OF this] first [OF ne] show ?thesis by blast
    qed
    ultimately show ?thesis by blast
  qed
  from adj first vals whole show ?thesis by blast
qed

theorem contiguous_coverage_where_nothing_is_dropped_witness:
  "isString (Str ''abba.'') \<and> all_plain [a_one, ab_run] \<and>
   fst (tokenize \<lparr>rules = [a_one, ab_run]\<rparr> (Str ''abba.'') fresh)
     = [\<lparr>index = 0, token_type = ''a'', token_value = ''a'', position = (0, 1)\<rparr>,
        \<lparr>index = 1, token_type = ''ab'', token_value = ''bba'', position = (1, 4)\<rparr>] \<and>
   first_match [a_one, ab_run] (''abba.'' ! 1) \<noteq> None \<and>
   first_match [a_one, ab_run] (''abba.'' ! 0) \<noteq> None \<and>
   concat (map token_value (fst (tokenize \<lparr>rules = [a_one, ab_run]\<rparr> (Str ''abba.'') fresh)))
     = ''abba''"
proof -
  let ?toks = "[\<lparr>index = 0, token_type = ''a'', token_value = ''a'', position = (0, 1)\<rparr>,
        \<lparr>index = 1, token_type = ''ab'', token_value = ''bba'', position = (1, 4)\<rparr>]"
  let ?T = "\<lparr>rules = [a_one, ab_run]\<rparr>"
  have str: "isString (Str ''abba.'')" by simp
  have pl: "all_plain (rules ?T)" by (simp add: a_one_def ab_run_def)
  have toks: "?toks = fst (tokenize ?T (Str ''abba.'') fresh)" by code_simp
  note inst = contiguous_coverage_where_nothing_is_dropped [OF str pl toks]
  from inst have adj: "(0 :: nat) + 1 < length ?toks \<longrightarrow>
      (snd (position (?toks ! 0)) = fst (position (?toks ! (0 + 1))) \<longleftrightarrow>
       first_match (rules ?T) (chars (Str ''abba.'') ! snd (position (?toks ! 0))) \<noteq> None)"
    by blast
  then have w1: "first_match [a_one, ab_run] (''abba.'' ! 1) \<noteq> None" by simp
  from inst have "?toks \<noteq> [] \<longrightarrow>
      (fst (position (?toks ! 0)) = 0 \<longleftrightarrow> first_match (rules ?T) (chars (Str ''abba.'') ! 0) \<noteq> None)"
    by blast
  then have w0: "first_match [a_one, ab_run] (''abba.'' ! 0) \<noteq> None" by simp
  from inst have "concat (map token_value ?toks)
      = filter (\<lambda>x. first_match (rules ?T) x \<noteq> None) (chars (Str ''abba.''))"
    by blast
  then have "concat (map token_value ?toks) = ''abba''" by (simp add: a_one_def ab_run_def)
  with str pl toks [symmetric] w0 w1 show ?thesis by simp
qed



text \<open>
  C7. \<^verbatim>\<open>tokenize\<close> has no \<^verbatim>\<open>throw\<close> and is a total function here. For every value that is not
  a string (\<^verbatim>\<open>undefined\<close>, \<^verbatim>\<open>null\<close>, a boolean, a number, an object) it returns the empty
  list, and so it does for the empty string; no regular expression is tested, and the store
  is left as it was.
\<close>

theorem tokenize_of_non_string_or_empty_string:
  "(\<not> isString v \<longrightarrow> tokenize this v \<sigma> = ([], \<sigma>)) \<and>
   tokenize this Undefined \<sigma> = ([], \<sigma>) \<and> tokenize this Null \<sigma> = ([], \<sigma>) \<and>
   tokenize this (Boolean b) \<sigma> = ([], \<sigma>) \<and> tokenize this (Number n) \<sigma> = ([], \<sigma>) \<and>
   tokenize this Object \<sigma> = ([], \<sigma>) \<and>
   tokenize this (Str []) \<sigma> = ([], \<sigma>) \<and> tokenize this (StringObject []) \<sigma> = ([], \<sigma>)"
  by (simp add: tokenize_def loop_done)

theorem tokenize_of_non_string_or_empty_string_witness:
  "\<not> isString (Number 42 :: char js_value) \<and>
   tokenize (Tokenizer_new_baked ascii_engine None) (Number 42) fresh = ([], fresh)"
proof -
  have h: "\<not> isString (Number 42 :: char js_value)" by simp
  from tokenize_of_non_string_or_empty_string
    [of "Number 42" "Tokenizer_new_baked ascii_engine None" fresh] h
  show ?thesis by blast
qed

text \<open>
  C10, as stated, fails for a rule whose regular expression carries the flag \<^verbatim>\<open>g\<close>: with the
  one rule \<^verbatim>\<open>/a/g\<close>, a first call on the text \<^verbatim>\<open>a\<close> returns one token and leaves
  \<^verbatim>\<open>lastIndex\<close> at 1, and the second call on the same text returns no token.
\<close>

theorem repeated_call_with_global_flag_counterexample:
  "fst (tokenize_call \<lparr>tokenizer = \<lparr>rules = [a_global_one]\<rparr>, lastIndex = fresh\<rparr> (Str ''a''))
     = [\<lparr>index = 0, token_type = ''x'', token_value = ''a'', position = (0, 1)\<rparr>] \<and>
   fst (tokenize_call
          (snd (tokenize_call \<lparr>tokenizer = \<lparr>rules = [a_global_one]\<rparr>, lastIndex = fresh\<rparr>
                  (Str ''a'')))
          (Str ''a''))
     = [] \<and>
   lastIndex (snd (tokenize_call \<lparr>tokenizer = \<lparr>rules = [a_global_one]\<rparr>, lastIndex = fresh\<rparr>
                     (Str ''a''))) 0 = 1"
  by code_simp

text \<open>
  C10, amended. A call of \<^verbatim>\<open>tokenize\<close> leaves the rule list of the tokenizer as it was. When
  the regular expressions of the rules carry neither flag \<^verbatim>\<open>g\<close> nor flag \<^verbatim>\<open>y\<close>, it leaves
  the whole state as it was, every \<^verbatim>\<open>lastIndex\<close> included; then a call after another call
  returns what it returns without it, and two calls on the same text return equal token lists.
\<close>

theorem tokenize_leaves_the_rules_unchanged:
  "tokenizer (snd (tokenize_call w v)) = tokenizer w \<and>
   rules (tokenizer (snd (tokenize_call w v))) = rules (tokenizer w) \<and>
   (all_plain (rules (tokenizer w)) \<longrightarrow>
      snd (tokenize_call w v) = w \<and>
      fst (tokenize_call (snd (tokenize_call w u)) v) = fst (tokenize_call w v) \<and>
      fst (tokenize_call (snd (tokenize_call w v)) v) = fst (tokenize_call w v))"
proof -
  have frame: "tokenizer (snd (tokenize_call w x)) = tokenizer w" for x
    by (simp add: tokenize_call_def split: prod.splits)
  have same: "snd (tokenize_call w x) = w" if "all_plain (rules (tokenizer w))" for x
  proof -
    obtain toks \<sigma>' where t: "tokenize (tokenizer w) x (lastIndex w) = (toks, \<sigma>')"
      by (metis surj_pair)
    with tokenize_plain_store [OF that, of x "lastIndex w"] have "\<sigma>' = lastIndex w" by simp
    with t show ?thesis by (simp add: tokenize_call_def)
  qed
  from frame same show ?thesis by simp
qed

theorem tokenize_leaves_the_rules_unchanged_witness:
  "all_plain [a_one, ab_run] \<and>
   snd (tokenize_call \<lparr>tokenizer = \<lparr>rules = [a_one, ab_run]\<rparr>, lastIndex = fresh\<rparr> (Str ''abba''))
     = \<lparr>tokenizer = \<lparr>rules = [a_one, ab_run]\<rparr>, lastIndex = fresh\<rparr> \<and>
   fst (tokenize_call
          (snd (tokenize_call \<lparr>tokenizer = \<lparr>rules = [a_one, ab_run]\<rparr>, lastIndex = fresh\<rparr>
                  (Str ''a.b'')))
          (Str ''abba''))
     = [\<lparr>index = 0, token_type = ''a'', token_value = ''a'', position = (0, 1)\<rparr>,
        \<lparr>index = 1, token_type = ''ab'', token_value = ''bba'', position = (1, 4)\<rparr>]"
proof -
  let ?w = "\<lparr>tokenizer = \<lparr>rules = [a_one, ab_run]\<rparr>, lastIndex = fresh\<rparr>"
  have pl: "all_plain (rules (tokenizer ?w))" by (simp add: a_one_def ab_run_def)
  have one: "fst (tokenize_call ?w (Str ''abba''))
     = [\<lparr>index = 0, token_type = ''a'', token_value = ''a'', position = (0, 1)\<rparr>,
        \<lparr>index = 1, token_type = ''ab'', token_value = ''bba'', position = (1, 4)\<rparr>]"
    by code_simp
  note inst = tokenize_leaves_the_rules_unchanged [of ?w "Str ''abba''" "Str ''a.b''"]
  from inst pl have a: "snd (tokenize_call ?w (Str ''abba'')) = ?w" by blast
  from inst pl have "fst (tokenize_call (snd (tokenize_call ?w (Str ''a.b''))) (Str ''abba''))
      = fst (tokenize_call ?w (Str ''abba''))" by blast
  from this one have b: "fst (tokenize_call (snd (tokenize_call ?w (Str ''a.b''))) (Str ''abba''))
     = [\<lparr>index = 0, token_type = ''a'', token_value = ''a'', position = (0, 1)\<rparr>,
        \<lparr>index = 1, token_type = ''ab'', token_value = ''bba'', position = (1, 4)\<rparr>]"
    by (rule trans)
  from pl have c: "all_plain [a_one, ab_run]" by simp
  from a b c show ?thesis by blast
qed



lemma loop_no_rules: "loop [] text cursor tokens \<sigma> = (tokens, \<sigma>)"
proof -
  let ?P = "\<lambda>(cursor :: nat) (tokens :: 'a Token list) res. res = tokens"
  have "snd (loop [] text cursor tokens \<sigma>) = \<sigma> \<and>
      ?P cursor tokens (fst (loop [] text cursor tokens \<sigma>))"
    by (rule loop_result_induct [where P = ?P and rs = "[]" and s = "text"]) simp_all
  then show ?thesis by (simp add: prod_eq_iff)
qed

lemma tokenize_no_rules: "rules this = [] \<Longrightarrow> tokenize this v \<sigma> = ([], \<sigma>)"
  by (simp add: tokenize_def loop_no_rules)

lemmas pattern_names =
  TokenizeLetter_ALL_def TokenizeSeparator_ALL_def TokenizePunctuation_ALL_def
  TokenizeNumber_ALL_def TokenizeSymbol_ALL_def TokenizeWord_COMPLEX_def

text \<open>
  The default rules of the two listings, for an engine that compiles the five category
  patterns. \<^verbatim>\<open>src/index.ts\<close> lists them as word, number, space, punctuation, symbol; the
  second listing as word, space, punctuation, number, symbol.
\<close>

lemma default_rules_of_both_listings:
  assumes "mk ([CHR 0x5C] @ ''p{L}'') ''u'' = Some pL" "mk ([CHR 0x5C] @ ''p{Z}'') ''u'' = Some pZ"
    "mk ([CHR 0x5C] @ ''p{P}'') ''u'' = Some pP" "mk ([CHR 0x5C] @ ''p{N}'') ''u'' = Some pN"
    "mk ([CHR 0x5C] @ ''p{S}'') ''u'' = Some pS"
  shows "Tokenizer_new mk None = Inr \<lparr>rules =
      [\<lparr>regex = Plain pL, rule_type = ''word'', shouldCaptureGroup = True\<rparr>,
       \<lparr>regex = Plain pN, rule_type = ''number'', shouldCaptureGroup = True\<rparr>,
       \<lparr>regex = Plain pZ, rule_type = ''space'', shouldCaptureGroup = False\<rparr>,
       \<lparr>regex = Plain pP, rule_type = ''punctuation'', shouldCaptureGroup = False\<rparr>,
       \<lparr>regex = Plain pS, rule_type = ''symbol'', shouldCaptureGroup = True\<rparr>]\<rparr>"
    and "Tokenizer_new_baked mk None = \<lparr>rules =
      [\<lparr>regex = Plain pL, rule_type = ''word'', shouldCaptureGroup = True\<rparr>,
       \<lparr>regex = Plain pZ, rule_type = ''space'', shouldCaptureGroup = False\<rparr>,
       \<lparr>regex = Plain pP, rule_type = ''punctuation'', shouldCaptureGroup = False\<rparr>,
       \<lparr>regex = Plain pN, rule_type = ''number'', shouldCaptureGroup = True\<rparr>,
       \<lparr>regex = Plain pS, rule_type = ''symbol'', shouldCaptureGroup = True\<rparr>]\<rparr>"
proof -
  show "Tokenizer_new mk None = Inr \<lparr>rules =
      [\<lparr>regex = Plain pL, rule_type = ''word'', shouldCaptureGroup = True\<rparr>,
       \<lparr>regex = Plain pN, rule_type = ''number'', shouldCaptureGroup = True\<rparr>,
       \<lparr>regex = Plain pZ, rule_type = ''space'', shouldCaptureGroup = False\<rparr>,
       \<lparr>regex = Plain pP, rule_type = ''punctuation'', shouldCaptureGroup = False\<rparr>,
       \<lparr>regex = Plain pS, rule_type = ''symbol'', shouldCaptureGroup = True\<rparr>]\<rparr>"
    using assms
    by (simp add: Tokenizer_new_def captureGroup_def captureMono_def Rule_new_def toRegex_def
        pattern_names)
  show "Tokenizer_new_baked mk None = \<lparr>rules =
      [\<lparr>regex = Plain pL, rule_type = ''word'', shouldCaptureGroup = True\<rparr>,
       \<lparr>regex = Plain pZ, rule_type = ''space'', shouldCaptureGroup = False\<rparr>,
       \<lparr>regex = Plain pP, rule_type = ''punctuation'', shouldCaptureGroup = False\<rparr>,
       \<lparr>regex = Plain pN, rule_type = ''number'', shouldCaptureGroup = True\<rparr>,
       \<lparr>regex = Plain pS, rule_type = ''symbol'', shouldCaptureGroup = True\<rparr>]\<rparr>"
    using assms
    by (simp add: Tokenizer_new_baked_def getDefaultRules_def filter_baked_def ruleMulti_def
        ruleMono_def TokenizerBakedRule_new_def baked_toRegex_def pattern_names)
qed


text \<open>
  C6, as stated, fails for the empty rule list: an empty array is truthy, so both constructors
  keep it and the active rule list is empty, where the omitted argument gives the five default
  rules; the text \<^verbatim>\<open>Mary\<close> gives no token under the empty list and one word under the omitted
  one.
\<close>

theorem empty_rule_list_counterexample:
  "length (rules (Tokenizer_new_baked ascii_engine (Some []))) = 0 \<and>
   length (rules (Tokenizer_new_baked ascii_engine None)) = 5 \<and>
   Tokenizer_new ascii_engine (Some []) = Inr \<lparr>rules = []\<rparr> \<and>
   fst (tokenize (Tokenizer_new_baked ascii_engine (Some [])) (Str ''Mary'') fresh) = [] \<and>
   fst (tokenize (Tokenizer_new_baked ascii_engine None) (Str ''Mary'') fresh)
     = [\<lparr>index = 0, token_type = ''word'', token_value = ''Mary'', position = (0, 4)\<rparr>]"
proof -
  have "length (rules (Tokenizer_new_baked ascii_engine (Some []))) = 0"
    by (simp add: Tokenizer_new_baked_def filter_baked_def)
  moreover have "length (rules (Tokenizer_new_baked ascii_engine None)) = 5"
    by code_simp
  moreover have "Tokenizer_new ascii_engine (Some []) = Inr \<lparr>rules = []\<rparr>"
    by (simp add: Tokenizer_new_def)
  moreover have
    "fst (tokenize (Tokenizer_new_baked ascii_engine (Some [])) (Str ''Mary'') fresh) = []"
    by code_simp
  moreover have "fst (tokenize (Tokenizer_new_baked ascii_engine None) (Str ''Mary'') fresh)
     = [\<lparr>index = 0, token_type = ''word'', token_value = ''Mary'', position = (0, 4)\<rparr>]"
    by code_simp
  ultimately show ?thesis by blast
qed

text \<open>
  C6, amended. With the rules argument omitted, and an engine that compiles the five
  category patterns, the constructor of the second listing gives the five default rules in
  the order word (MULTI, Letter), space (MONO, Separator), punctuation (MONO, Punctuation),
  number (MULTI, Number), symbol (MULTI, Symbol), and the constructor of \<^verbatim>\<open>src/index.ts\<close>
  gives the same five rules (their order there is not part of this statement). With an empty
  rule list both constructors give an empty active rule list, and \<^verbatim>\<open>tokenize\<close> then returns
  no token for any input and leaves the store as it was.
\<close>

theorem default_rules_when_omitted_and_none_when_empty:
  "mk ([CHR 0x5C] @ ''p{L}'') ''u'' = Some pL \<Longrightarrow> mk ([CHR 0x5C] @ ''p{Z}'') ''u'' = Some pZ \<Longrightarrow>
   mk ([CHR 0x5C] @ ''p{P}'') ''u'' = Some pP \<Longrightarrow> mk ([CHR 0x5C] @ ''p{N}'') ''u'' = Some pN \<Longrightarrow>
   mk ([CHR 0x5C] @ ''p{S}'') ''u'' = Some pS \<Longrightarrow>
     rules (Tokenizer_new_baked mk None) =
       [\<lparr>regex = Plain pL, rule_type = ''word'', shouldCaptureGroup = True\<rparr>,
        \<lparr>regex = Plain pZ, rule_type = ''space'', shouldCaptureGroup = False\<rparr>,
        \<lparr>regex = Plain pP, rule_type = ''punctuation'', shouldCaptureGroup = False\<rparr>,
        \<lparr>regex = Plain pN, rule_type = ''number'', shouldCaptureGroup = True\<rparr>,
        \<lparr>regex = Plain pS, rule_type = ''symbol'', shouldCaptureGroup = True\<rparr>] \<and>
     (case Tokenizer_new mk None of
        Inl e \<Rightarrow> False
      | Inr this \<Rightarrow> length (rules this) = 5 \<and>
                    set (rules this) = set (rules (Tokenizer_new_baked mk None))) \<and>
     rules (Tokenizer_new_baked mk (Some [])) = [] \<and>
     Tokenizer_new mk (Some []) = Inr \<lparr>rules = []\<rparr> \<and>
     tokenize (Tokenizer_new_baked mk (Some [])) v \<sigma> = ([], \<sigma>) \<and>
     tokenize \<lparr>rules = []\<rparr> v \<sigma> = ([], \<sigma>)"
proof -
  assume c: "mk ([CHR 0x5C] @ ''p{L}'') ''u'' = Some pL" "mk ([CHR 0x5C] @ ''p{Z}'') ''u'' = Some pZ"
    "mk ([CHR 0x5C] @ ''p{P}'') ''u'' = Some pP" "mk ([CHR 0x5C] @ ''p{N}'') ''u'' = Some pN"
    "mk ([CHR 0x5C] @ ''p{S}'') ''u'' = Some pS"
  note d = default_rules_of_both_listings
    [where mk = mk and pL = pL and pZ = pZ and pP = pP and pN = pN and pS = pS, OF c]
  have e: "rules (Tokenizer_new_baked mk (Some [])) = []"
    by (simp add: Tokenizer_new_baked_def filter_baked_def)
  have "case Tokenizer_new mk None of
        Inl e \<Rightarrow> False
      | Inr this \<Rightarrow> length (rules this) = 5 \<and>
                    set (rules this) = set (rules (Tokenizer_new_baked mk None))"
    by (simp only: d) auto
  moreover have "Tokenizer_new mk (Some []) = Inr \<lparr>rules = []\<rparr>"
    by (simp add: Tokenizer_new_def)
  moreover from e have "tokenize (Tokenizer_new_baked mk (Some [])) v \<sigma> = ([], \<sigma>)"
    by (rule tokenize_no_rules)
  moreover have "tokenize \<lparr>rules = []\<rparr> v \<sigma> = ([], \<sigma>)"
    by (simp add: tokenize_no_rules)
  ultimately show ?thesis using d(2) e by simp
qed

theorem default_rules_when_omitted_and_none_when_empty_witness:
  "ascii_engine ([CHR 0x5C] @ ''p{L}'') ''u'' = Some (\<lambda>c. c \<in> set ascii_L) \<and>
   ascii_engine ([CHR 0x5C] @ ''p{Z}'') ''u'' = Some (\<lambda>c. c \<in> set ascii_Z) \<and>
   ascii_engine ([CHR 0x5C] @ ''p{P}'') ''u'' = Some (\<lambda>c. c \<in> set ascii_P) \<and>
   ascii_engine ([CHR 0x5C] @ ''p{N}'') ''u'' = Some (\<lambda>c. c \<in> set ascii_N) \<and>
   ascii_engine ([CHR 0x5C] @ ''p{S}'') ''u'' = Some (\<lambda>c. c \<in> set ascii_S) \<and>
   map rule_type (rules (Tokenizer_new_baked ascii_engine None))
     = [''word'', ''space'', ''punctuation'', ''number'', ''symbol''] \<and>
   map shouldCaptureGroup (rules (Tokenizer_new_baked ascii_engine None))
     = [True, False, False, True, True] \<and>
   tokenize (Tokenizer_new_baked ascii_engine (Some [])) (Str ''Mary'') fresh = ([], fresh)"
proof -
  have L: "ascii_engine ([CHR 0x5C] @ ''p{L}'') ''u'' = Some (\<lambda>c. c \<in> set ascii_L)"
    and Z: "ascii_engine ([CHR 0x5C] @ ''p{Z}'') ''u'' = Some (\<lambda>c. c \<in> set ascii_Z)"
    and P: "ascii_engine ([CHR 0x5C] @ ''p{P}'') ''u'' = Some (\<lambda>c. c \<in> set ascii_P)"
    and N: "ascii_engine ([CHR 0x5C] @ ''p{N}'') ''u'' = Some (\<lambda>c. c \<in> set ascii_N)"
    and S: "ascii_engine ([CHR 0x5C] @ ''p{S}'') ''u'' = Some (\<lambda>c. c \<in> set ascii_S)"
    by (simp_all add: ascii_engine_def)
  note inst = default_rules_when_omitted_and_none_when_empty
    [where mk = ascii_engine and pL = "\<lambda>c. c \<in> set ascii_L" and pZ = "\<lambda>c. c \<in> set ascii_Z"
       and pP = "\<lambda>c. c \<in> set ascii_P" and pN = "\<lambda>c. c \<in> set ascii_N"
       and pS = "\<lambda>c. c \<in> set ascii_S" and v = "Str ''Mary''" and \<sigma> = fresh,
     OF L Z P N S]
  from inst have "map rule_type (rules (Tokenizer_new_baked ascii_engine None))
     = [''word'', ''space'', ''punctuation'', ''number'', ''symbol'']"
    and "map shouldCaptureGroup (rules (Tokenizer_new_baked ascii_engine None))
     = [True, False, False, True, True]"
    and "tokenize (Tokenizer_new_baked ascii_engine (Some [])) (Str ''Mary'') fresh = ([], fresh)"
    by simp_all
  with L Z P N S show ?thesis by blast
qed



lemma filter_baked_keeps_the_rules:
  "map Some (filter_baked rs) = filter (\<lambda>r. r \<noteq> None) rs"
  by (induction rs) (auto simp: filter_baked_def)

text \<open>
  C8, as stated, fails for a rule whose type is the empty string: the constructor only
  rejects an instruction without any key, so \<^verbatim>\<open>ruleMono({"": TokenizeLetter.ALL})\<close> is a
  rule, it stays in the active list and its tokens carry the empty type.
\<close>

theorem empty_type_rule_counterexample:
  "map_option rule_type (ruleMono ascii_engine [([], Some (Known TokenizeLetter_ALL))]) = Some [] \<and>
   fst (tokenize (Tokenizer_new_baked ascii_engine
                    (Some [ruleMono ascii_engine [([], Some (Known TokenizeLetter_ALL))]]))
                 (Str ''a'') fresh)
     = [\<lparr>index = 0, token_type = [], token_value = ''a'', position = (0, 1)\<rparr>]"
proof -
  have "map_option rule_type (ruleMono ascii_engine [([], Some (Known TokenizeLetter_ALL))])
      = Some []"
    by code_simp
  moreover have "fst (tokenize (Tokenizer_new_baked ascii_engine
                    (Some [ruleMono ascii_engine [([], Some (Known TokenizeLetter_ALL))]]))
                 (Str ''a'') fresh)
     = [\<lparr>index = 0, token_type = [], token_value = ''a'', position = (0, 1)\<rparr>]"
    by code_simp
  ultimately show ?thesis by blast
qed

text \<open>
  C8, amended. Building a rule from an instruction without any key (no type), or whose
  pattern is missing or the empty string, throws an \<^verbatim>\<open>Error\<close> in the constructor of
  \<^verbatim>\<open>TokenizerBakedRule\<close>; \<^verbatim>\<open>ruleMono\<close> and \<^verbatim>\<open>ruleMulti\<close> turn it into \<^verbatim>\<open>null\<close>. The constructor
  of the tokenizer and \<^verbatim>\<open>update\<close> keep exactly the rules that are not \<^verbatim>\<open>null\<close>, in order, so
  the active list holds no invalid rule when \<^verbatim>\<open>tokenize\<close> runs. A rule whose type is the empty
  string and whose pattern compiles is accepted, with the empty string as its type.
\<close>

theorem invalid_rules_become_null_and_are_filtered:
  "TokenizerBakedRule_new mk [] multi = Inl (Error ''Omitting the rule that has no type'') \<and>
   ruleMono mk [] = None \<and> ruleMulti mk [] = None \<and>
   (falsy rx \<longrightarrow>
      TokenizerBakedRule_new mk ((type, rx) # others) multi
        = Inl (Error ''Omitting the rule that has no value'') \<and>
      ruleMono mk ((type, rx) # others) = None \<and>
      ruleMulti mk ((type, rx) # others) = None) \<and>
   map Some (rules (Tokenizer_new_baked mk (Some rs))) = filter (\<lambda>r. r \<noteq> None) rs \<and>
   map Some (rules (update_baked this rs)) = filter (\<lambda>r. r \<noteq> None) rs \<and>
   (\<not> falsy rx' \<and> baked_toRegex mk (the rx') = Inr re \<longrightarrow>
      ruleMono mk (([], rx') # others)
        = Some \<lparr>regex = re, rule_type = [], shouldCaptureGroup = False\<rparr> \<and>
      ruleMulti mk (([], rx') # others)
        = Some \<lparr>regex = re, rule_type = [], shouldCaptureGroup = True\<rparr>)"
proof -
  have "TokenizerBakedRule_new mk [] multi = Inl (Error ''Omitting the rule that has no type'')"
    and "ruleMono mk [] = None" and "ruleMulti mk [] = None"
    by (simp_all add: TokenizerBakedRule_new_def ruleMono_def ruleMulti_def)
  moreover have "TokenizerBakedRule_new mk ((type, rx) # others) multi
        = Inl (Error ''Omitting the rule that has no value'') \<and>
      ruleMono mk ((type, rx) # others) = None \<and>
      ruleMulti mk ((type, rx) # others) = None" if "falsy rx"
    using that by (simp add: TokenizerBakedRule_new_def ruleMono_def ruleMulti_def)
  moreover have "map Some (rules (Tokenizer_new_baked mk (Some rs))) = filter (\<lambda>r. r \<noteq> None) rs"
    by (simp add: Tokenizer_new_baked_def filter_baked_keeps_the_rules)
  moreover have "map Some (rules (update_baked this rs)) = filter (\<lambda>r. r \<noteq> None) rs"
    by (simp add: update_baked_def filter_baked_keeps_the_rules)
  moreover have "ruleMono mk (([], rx') # others)
        = Some \<lparr>regex = re, rule_type = [], shouldCaptureGroup = False\<rparr> \<and>
      ruleMulti mk (([], rx') # others)
        = Some \<lparr>regex = re, rule_type = [], shouldCaptureGroup = True\<rparr>"
    if "\<not> falsy rx'" "baked_toRegex mk (the rx') = Inr re"
    using that by (simp add: TokenizerBakedRule_new_def ruleMono_def ruleMulti_def)
  ultimately show ?thesis by blast
qed

theorem invalid_rules_become_null_and_are_filtered_witness:
  "falsy (None :: char pattern option) \<and>
   ruleMono ascii_engine [(''word'', None)] = None \<and>
   \<not> falsy (Some (Custom (regex period))) \<and>
   baked_toRegex ascii_engine (the (Some (Custom (regex period)))) = Inr (regex period) \<and>
   ruleMono ascii_engine [([], Some (Custom (regex period)))]
     = Some \<lparr>regex = regex period, rule_type = [], shouldCaptureGroup = False\<rparr> \<and>
   map Some (rules (Tokenizer_new_baked ascii_engine (Some [None, Some period, None])))
     = [Some period]"
proof -
  have f: "falsy (None :: char pattern option)" by simp
  have t: "\<not> falsy (Some (Custom (regex period))) \<and>
      baked_toRegex ascii_engine (the (Some (Custom (regex period)))) = Inr (regex period)"
    by (simp add: baked_toRegex_def)
  note inst = invalid_rules_become_null_and_are_filtered
    [where mk = ascii_engine and rx = None and rx' = "Some (Custom (regex period))"
       and re = "regex period" and type = "''word''" and others = "[]"
       and rs = "[None, Some period, None]"]
  from inst f have "ruleMono ascii_engine [(''word'', None)] = None" by blast
  moreover from inst t have "ruleMono ascii_engine [([], Some (Custom (regex period)))]
     = Some \<lparr>regex = regex period, rule_type = [], shouldCaptureGroup = False\<rparr>"
    by blast
  moreover from inst have
    "map Some (rules (Tokenizer_new_baked ascii_engine (Some [None, Some period, None])))
     = filter (\<lambda>r. r \<noteq> None) [None, Some period, None]"
    by blast
  ultimately show ?thesis using f t by simp
qed




end
